theory Spec2Isabelle
  imports Complex_Main
begin

section \<open>Data model\<close>

text \<open>
  The simulation of \<^verbatim>\<open>25f53.js\<close>, \<^verbatim>\<open>25f63.js\<close> and \<^verbatim>\<open>25g32.js\<close> works on
  module-level variables. A JavaScript array is an object from indices to values: reading
  an index that holds nothing yields \<^verbatim>\<open>undefined\<close>, and writing any index stores the
  value. A row of the grid is therefore a partial map from column index to cell value
  (\<open>None\<close> reads as \<^verbatim>\<open>undefined\<close>), and the grid a partial map from row index to row.
  Rows are distinct objects (\<^verbatim>\<open>createZeroMatrix\<close> pushes a fresh array per row).
  Positions, types and cell values are integers; probabilities and random draws are
  the real numbers that the doubles of the code stand for.
\<close>

type_synonym row = "int \<rightharpoonup> int"
type_synonym grid = "int \<rightharpoonup> row"
type_synonym agent = "int \<times> int \<times> int"
type_synonym matrix = "real list list"
type_synonym draws = "nat \<Rightarrow> real"

datatype error = TypeError

text \<open>
  The globals: \<^verbatim>\<open>world\<close>, \<^verbatim>\<open>agents\<close>, \<^verbatim>\<open>mpm\<close>, \<^verbatim>\<open>t\<close> (field \<open>tm\<close>), \<^verbatim>\<open>tend\<close>,
  whether the interval \<^verbatim>\<open>timer\<close> is still set, and the three filter arrays. A filter
  counter is \<open>None\<close> when it is not a number (\<^verbatim>\<open>undefined++\<close> stores \<^verbatim>\<open>NaN\<close>).
\<close>

record globals =
  world :: grid
  agents :: "agent list"
  mpm :: "int \<rightharpoonup> matrix"
  tm :: int
  tend :: "int option"
  timer :: bool
  filterPost :: "int list"
  filterType :: "int list"
  filterCount :: "int option list"

section \<open>Grid access\<close>

text \<open>\<^verbatim>\<open>world[y][x]\<close>: a TypeError when \<^verbatim>\<open>world[y]\<close> is undefined, else the element.\<close>

definition cell :: "grid \<Rightarrow> int \<Rightarrow> int \<Rightarrow> error + int option" where
  "cell w x y = (case w y of None \<Rightarrow> Inl TypeError | Some r \<Rightarrow> Inr (r x))"

text \<open>
  \<^verbatim>\<open>world[y][x] = v\<close>. The step functions assign only to rows that they have just
  read, so the assignment never meets an undefined row there (where it would throw);
  on such a row the grid is returned as it is.
\<close>

definition put :: "grid \<Rightarrow> int \<Rightarrow> int \<Rightarrow> int option \<Rightarrow> grid" where
  "put w x y v = (case w y of None \<Rightarrow> w | Some r \<Rightarrow> w(y \<mapsto> r(x := v)))"

text \<open>
  \<^verbatim>\<open>[world[y2][x2], world[y][x]] = [world[y][x], world[y2][x2]]\<close>: the right-hand side
  is read first (source cell, then destination cell), then the destination is assigned,
  then the source.
\<close>

definition swap :: "grid \<Rightarrow> int \<Rightarrow> int \<Rightarrow> int \<Rightarrow> int \<Rightarrow> error + grid" where
  "swap w x y x2 y2 =
     (case cell w x y of
        Inl e \<Rightarrow> Inl e
      | Inr src \<Rightarrow>
          (case cell w x2 y2 of
             Inl e \<Rightarrow> Inl e
           | Inr dst \<Rightarrow> Inr (put (put w x2 y2 src) x y dst)))"

text \<open>A grid given as an array of arrays.\<close>

definition row_of :: "int list \<Rightarrow> row" where
  "row_of r = (\<lambda>x. if 0 \<le> x \<and> x < int (length r) then Some (r ! nat x) else None)"

definition grid_of :: "int list list \<Rightarrow> grid" where
  "grid_of rs = (\<lambda>y. if 0 \<le> y \<and> y < int (length rs) then Some (row_of (rs ! nat y)) else None)"

section \<open>Numbers\<close>

text \<open>
  A JavaScript number is an IEEE 754 double: a finite value, an infinity or \<^verbatim>\<open>NaN\<close>.
  The two zeros compare alike and are one value here. The sum of two finite doubles is
  their exact sum rounded to the nearest double, a tie going to the even significand:
  \<open>expo r\<close> is the exponent of the binade of \<open>r\<close> (\<open>- 1022\<close> for the subnormal numbers),
  \<open>quantum r\<close> the spacing of the doubles there, \<open>rnd r\<close> the nearest multiple of it, and a
  rounded value of magnitude \<open>2 ^ 1024\<close> or more is an infinity.
\<close>

datatype num = Fin real | PInf | NInf | NaN

primrec expo_search :: "nat \<Rightarrow> real \<Rightarrow> int" where
  "expo_search 0 a = - 1022"
| "expo_search (Suc n) a =
     (if 2 powi (int n - 1021) \<le> a then int n - 1021 else expo_search n a)"

definition expo :: "real \<Rightarrow> int" where
  "expo r = expo_search 2045 \<bar>r\<bar>"

definition quantum :: "real \<Rightarrow> real" where
  "quantum r = 2 powi (expo r - 52)"

definition nearest_even :: "real \<Rightarrow> int" where
  "nearest_even z =
     (let f = \<lfloor>z\<rfloor> in
      if z - of_int f < 1 / 2 then f
      else if 1 / 2 < z - of_int f then f + 1
      else if even f then f else f + 1)"

definition rnd :: "real \<Rightarrow> real" where
  "rnd r = sgn r * of_int (nearest_even (\<bar>r\<bar> / quantum r)) * quantum r"

definition huge :: real where
  "huge = 2 powi 1024"

definition to_double :: "real \<Rightarrow> num" where
  "to_double r =
     (let d = rnd r in if huge \<le> d then PInf else if d \<le> - huge then NInf else Fin d)"

text \<open>
  \<^verbatim>\<open>y += v\<close> where \<open>v\<close> is an array element, \<open>None\<close> when the index holds nothing: adding
  \<^verbatim>\<open>undefined\<close> gives \<^verbatim>\<open>NaN\<close>, \<^verbatim>\<open>NaN\<close> stays \<^verbatim>\<open>NaN\<close>, and an infinity plus a finite
  number stays that infinity.
\<close>

fun plus_num :: "num \<Rightarrow> real option \<Rightarrow> num" where
  "plus_num y None = NaN"
| "plus_num (Fin a) (Some v) = to_double (a + v)"
| "plus_num y (Some v) = y"

text \<open>\<^verbatim>\<open>y > x\<close> for a finite \<open>x\<close>: every comparison with \<^verbatim>\<open>NaN\<close> is false.\<close>

fun exceeds :: "num \<Rightarrow> real \<Rightarrow> bool" where
  "exceeds (Fin a) x = (x < a)"
| "exceeds PInf x = True"
| "exceeds y x = False"

text \<open>The real numbers that are finite doubles, subnormal ones included.\<close>

definition is_dbl :: "real \<Rightarrow> bool" where
  "is_dbl d = (\<exists>(m::int) (q::int). d = of_int m * 2 powi q \<and> \<bar>m\<bar> < 2 ^ 53 \<and> - 1074 \<le> q)"

text \<open>
  A running total that the draw \<open>x\<close> has not met: what the scan keeps true of \<open>y\<close> for as
  long as it goes on.
\<close>

fun below :: "num \<Rightarrow> real \<Rightarrow> bool" where
  "below (Fin a) x = (is_dbl a \<and> a \<le> x \<and> \<bar>a\<bar> < huge)"
| "below PInf x = False"
| "below y x = True"

section \<open>Direction sampler\<close>

text \<open>
  \<^verbatim>\<open>generateDirection(m)\<close> with the value \<open>x\<close> of \<^verbatim>\<open>Math.random()\<close> as a parameter.
  The entries of a matrix are finite numbers. \<open>elem mr c\<close> is the read \<^verbatim>\<open>m[r][c]\<close> from
  the row \<open>mr\<close>: an element read beyond the end of a row is \<^verbatim>\<open>undefined\<close>. The running
  total \<open>y\<close> is a double. The inner loop returns \<open>Inl\<close> of the direction when the function
  returns, \<open>Inr\<close> of the running total otherwise.
\<close>

definition elem :: "real list \<Rightarrow> nat \<Rightarrow> real option" where
  "elem mr c = (if c < length mr then Some (mr ! c) else None)"

fun colLoop :: "real \<Rightarrow> real list \<Rightarrow> nat \<Rightarrow> nat list \<Rightarrow> num \<Rightarrow> (int \<times> int) + num" where
  "colLoop x mr r [] y = Inr y"
| "colLoop x mr r (c # cs) y =
     (let y' = plus_num y (elem mr c)
      in if exceeds y' x
         then Inl (int c - 1, int r - 1)
         else colLoop x mr r cs y')"

fun rowLoop :: "real \<Rightarrow> matrix \<Rightarrow> nat \<Rightarrow> nat list \<Rightarrow> num \<Rightarrow> (int \<times> int) option" where
  "rowLoop x m COLS [] y = None"
| "rowLoop x m COLS (r # rs) y =
     (case colLoop x (m ! r) r [0..<COLS] y of
        Inl d \<Rightarrow> Some d
      | Inr y' \<Rightarrow> rowLoop x m COLS rs y')"

text \<open>
  The argument is \<open>None\<close> when \<^verbatim>\<open>mpm[t]\<close> is undefined: \<^verbatim>\<open>m.length\<close> throws. On an
  empty array \<^verbatim>\<open>m[0].length\<close> throws. The result \<open>Inr None\<close> is the return value
  \<^verbatim>\<open>undefined\<close> of a function that runs off its end.
\<close>

definition generateDirection :: "real \<Rightarrow> matrix option \<Rightarrow> error + (int \<times> int) option" where
  "generateDirection x mo =
     (case mo of
        None \<Rightarrow> Inl TypeError
      | Some m \<Rightarrow>
          (case m of
             [] \<Rightarrow> Inl TypeError
           | m0 # _ \<Rightarrow> Inr (rowLoop x m (length m0) [0..<length m] (Fin 0))))"

text \<open>
  The running total after the scan has added the entries \<open>vs\<close> to \<open>y\<close>, as the code
  accumulates it.
\<close>

fun running_total :: "num \<Rightarrow> real list \<Rightarrow> num" where
  "running_total y [] = y"
| "running_total y (v # vs) = running_total (plus_num y (Some v)) vs"

section \<open>Step engine\<close>

text \<open>
  The step functions also write the time into the page, draw the grid on the canvas and
  resize the filter bars. These effects read the state and do not change it; they are
  left out.
\<close>

text \<open>
  The head of the loop body, shared by all three engines: the agent's fields, its matrix
  \<^verbatim>\<open>mpm[t]\<close>, the sampled direction and the candidate cell. Assigning \<^verbatim>\<open>[dx, dy]\<close>
  from \<^verbatim>\<open>undefined\<close> throws a TypeError.
\<close>

fun target :: "real \<Rightarrow> (int \<rightharpoonup> matrix) \<Rightarrow> agent \<Rightarrow> error + (int \<times> int)" where
  "target u mp (x, y, ty) =
     (case generateDirection u (mp ty) of
        Inl e \<Rightarrow> Inl e
      | Inr None \<Rightarrow> Inl TypeError
      | Inr (Some (dx, dy)) \<Rightarrow> Inr (x + dx, y + dy))"

text \<open>
  The loop body of \<^verbatim>\<open>simulate\<close> and \<^verbatim>\<open>simulate_v0_2\<close> for one agent, on the grid and
  the list \<open>b\<close> built so far. An exception leaves the grid as it is at that moment.
\<close>

fun move :: "real \<Rightarrow> (int \<rightharpoonup> matrix) \<Rightarrow> agent \<Rightarrow> grid \<times> agent list
    \<Rightarrow> (error \<times> grid) + (grid \<times> agent list)" where
  "move u mp (x, y, ty) (w, b) =
     (case target u mp (x, y, ty) of
        Inl e \<Rightarrow> Inl (e, w)
      | Inr (x2, y2) \<Rightarrow>
          (case cell w x2 y2 of
             Inl e \<Rightarrow> Inl (e, w)
           | Inr v \<Rightarrow>
               if v = Some 0 then
                 (case swap w x y x2 y2 of
                    Inl e \<Rightarrow> Inl (e, w)
                  | Inr w' \<Rightarrow> Inr (w', b @ [(x2, y2, ty)]))
               else Inr (w, b @ [(x, y, ty)])))"

text \<open>\<^verbatim>\<open>for(a of agents)\<close>: one draw per agent, in registry order.\<close>

fun agentLoop :: "draws \<Rightarrow> (int \<rightharpoonup> matrix) \<Rightarrow> agent list \<Rightarrow> grid \<times> agent list
    \<Rightarrow> (error \<times> grid) + (grid \<times> agent list)" where
  "agentLoop us mp [] st = Inr st"
| "agentLoop us mp (a # as) st =
     (case move (us 0) mp a st of
        Inl e \<Rightarrow> Inl e
      | Inr st' \<Rightarrow> agentLoop (\<lambda>i. us (Suc i)) mp as st')"

text \<open>
  \<^verbatim>\<open>simulate()\<close>. \<open>Inr\<close> is the state after a normal return, \<open>Inl\<close> the exception with
  the state it leaves behind: the grid as mutated so far, \<^verbatim>\<open>agents\<close> and \<^verbatim>\<open>t\<close> not
  yet assigned.
\<close>

definition simulate :: "draws \<Rightarrow> globals \<Rightarrow> (error \<times> globals) + globals" where
  "simulate us s =
     (case agentLoop us (mpm s) (agents s) (world s, []) of
        Inl (e, w) \<Rightarrow> Inl (e, s\<lparr>world := w\<rparr>)
      | Inr (w, b) \<Rightarrow> Inr (s\<lparr>world := w, agents := b, tm := tm s + 1\<rparr>))"

text \<open>
  \<^verbatim>\<open>simulate_v0_2()\<close>: the same loop; when \<^verbatim>\<open>t >= tend\<close> the interval timer is cleared
  (the comparison with an undefined \<^verbatim>\<open>tend\<close> is false).
\<close>

definition simulate_v0_2 :: "draws \<Rightarrow> globals \<Rightarrow> (error \<times> globals) + globals" where
  "simulate_v0_2 us s =
     (case agentLoop us (mpm s) (agents s) (world s, []) of
        Inl (e, w) \<Rightarrow> Inl (e, s\<lparr>world := w\<rparr>)
      | Inr (w, b) \<Rightarrow>
          Inr (s\<lparr>world := w, agents := b,
                 timer := (case tend s of
                             None \<Rightarrow> timer s
                           | Some te \<Rightarrow> if tm s \<ge> te then False else timer s),
                 tm := tm s + 1\<rparr>))"

subsection \<open>Filters\<close>

text \<open>
  \<^verbatim>\<open>filterCount[f]++\<close>: a number is incremented; anything else becomes \<^verbatim>\<open>NaN\<close>, and an
  index beyond the end extends the array.
\<close>

definition bump :: "nat \<Rightarrow> int option list \<Rightarrow> int option list" where
  "bump f fc =
     (if f < length fc then fc[f := map_option (\<lambda>c. c + 1) (fc ! f)]
      else fc @ replicate (f - length fc) None @ [None])"

text \<open>
  The filter loop that follows a successful move to \<open>(x2, y2)\<close>, over the indices of
  \<^verbatim>\<open>filterPost\<close>. \<^verbatim>\<open>b.pop()\<close> removes the last element of \<open>b\<close>, whichever it is, and
  does nothing on an empty array; \<^verbatim>\<open>filterType[f]\<close> beyond the end is \<^verbatim>\<open>undefined\<close>
  and equals no type. The row \<^verbatim>\<open>world[y2]\<close> exists: the move has just written to it.
\<close>

fun filterLoop :: "int \<Rightarrow> int \<Rightarrow> int \<Rightarrow> int list \<Rightarrow> int list \<Rightarrow> nat list
    \<Rightarrow> grid \<times> agent list \<times> int option list \<Rightarrow> grid \<times> agent list \<times> int option list" where
  "filterLoop x2 y2 ty fp ft [] st = st"
| "filterLoop x2 y2 ty fp ft (f # fs) (w, b, fc) =
     (if x2 = fp ! f then
        (if f < length ft \<and> ty = ft ! f
         then filterLoop x2 y2 ty fp ft fs (put w x2 y2 (Some 0), butlast b, bump f fc)
         else filterLoop x2 y2 ty fp ft fs (w, b, bump f fc))
      else filterLoop x2 y2 ty fp ft fs (w, b, fc))"

text \<open>The loop body of \<^verbatim>\<open>simulate2\<close> for one agent.\<close>

fun move2 :: "real \<Rightarrow> (int \<rightharpoonup> matrix) \<Rightarrow> int list \<Rightarrow> int list \<Rightarrow> agent
    \<Rightarrow> grid \<times> agent list \<times> int option list
    \<Rightarrow> (error \<times> grid \<times> int option list) + (grid \<times> agent list \<times> int option list)" where
  "move2 u mp fp ft (x, y, ty) (w, b, fc) =
     (case target u mp (x, y, ty) of
        Inl e \<Rightarrow> Inl (e, w, fc)
      | Inr (x2, y2) \<Rightarrow>
          (case cell w x2 y2 of
             Inl e \<Rightarrow> Inl (e, w, fc)
           | Inr v \<Rightarrow>
               if v = Some 0 then
                 (case swap w x y x2 y2 of
                    Inl e \<Rightarrow> Inl (e, w, fc)
                  | Inr w' \<Rightarrow>
                      Inr (filterLoop x2 y2 ty fp ft [0..<length fp]
                             (w', b @ [(x2, y2, ty)], fc)))
               else Inr (w, b @ [(x, y, ty)], fc)))"

fun agentLoop2 :: "draws \<Rightarrow> (int \<rightharpoonup> matrix) \<Rightarrow> int list \<Rightarrow> int list \<Rightarrow> agent list
    \<Rightarrow> grid \<times> agent list \<times> int option list
    \<Rightarrow> (error \<times> grid \<times> int option list) + (grid \<times> agent list \<times> int option list)" where
  "agentLoop2 us mp fp ft [] st = Inr st"
| "agentLoop2 us mp fp ft (a # as) st =
     (case move2 (us 0) mp fp ft a st of
        Inl e \<Rightarrow> Inl e
      | Inr st' \<Rightarrow> agentLoop2 (\<lambda>i. us (Suc i)) mp fp ft as st')"

text \<open>\<^verbatim>\<open>simulate2()\<close>: counters already incremented stay incremented when it throws.\<close>

definition simulate2 :: "draws \<Rightarrow> globals \<Rightarrow> (error \<times> globals) + globals" where
  "simulate2 us s =
     (case agentLoop2 us (mpm s) (filterPost s) (filterType s) (agents s)
             (world s, [], filterCount s) of
        Inl (e, w, fc) \<Rightarrow> Inl (e, s\<lparr>world := w, filterCount := fc\<rparr>)
      | Inr (w, b, fc) \<Rightarrow>
          Inr (s\<lparr>world := w, agents := b, tm := tm s + 1, filterCount := fc\<rparr>))"

subsection \<open>Observing a call\<close>

definition threw :: "(error \<times> globals) + globals \<Rightarrow> bool" where
  "threw r = (case r of Inl _ \<Rightarrow> True | Inr _ \<Rightarrow> False)"

definition after :: "(error \<times> globals) + globals \<Rightarrow> globals" where
  "after r = (case r of Inl (e, s) \<Rightarrow> s | Inr s \<Rightarrow> s)"

text \<open>
  A call of \<^verbatim>\<open>simulate2\<close> taken up inside its loop, with the agents \<open>as\<close> still to be
  processed from the grid, the list \<open>b\<close> and the counters of \<open>st\<close>: the rest of the loop
  and the assignments that follow it. The whole call is \<open>resume2\<close> with all the agents
  from the initial grid, the empty list and the counters of the state.
\<close>

definition resume2 :: "draws \<Rightarrow> globals \<Rightarrow> agent list \<Rightarrow> grid \<times> agent list \<times> int option list
    \<Rightarrow> (error \<times> globals) + globals" where
  "resume2 us s as st =
     (case agentLoop2 us (mpm s) (filterPost s) (filterType s) as st of
        Inl (e, w, fc) \<Rightarrow> Inl (e, s\<lparr>world := w, filterCount := fc\<rparr>)
      | Inr (w, b, fc) \<Rightarrow>
          Inr (s\<lparr>world := w, agents := b, tm := tm s + 1, filterCount := fc\<rparr>))"

section \<open>Sequences of calls\<close>

text \<open>
  Successive calls of a step function by the interval timer: the timer calls it again
  whatever the previous call did, on the state that call left. \<open>ds k\<close> are the draws of
  call \<open>k\<close>.
\<close>

fun steps :: "(draws \<Rightarrow> globals \<Rightarrow> (error \<times> globals) + globals) \<Rightarrow> (nat \<Rightarrow> draws) \<Rightarrow> nat
    \<Rightarrow> globals \<Rightarrow> globals" where
  "steps f ds 0 s = s"
| "steps f ds (Suc n) s = steps f (\<lambda>k. ds (Suc k)) n (after (f (ds 0) s))"

text \<open>
  A sequence of calls of the step functions, each with its draws, all of which return
  normally: \<open>Inr\<close> of the state they reach, \<open>Inl\<close> as soon as one throws.
\<close>

datatype engine = Simulate | Simulate2 | Simulate_v0_2

fun call :: "engine \<Rightarrow> draws \<Rightarrow> globals \<Rightarrow> (error \<times> globals) + globals" where
  "call Simulate us s = simulate us s"
| "call Simulate2 us s = simulate2 us s"
| "call Simulate_v0_2 us s = simulate_v0_2 us s"

fun calls :: "(engine \<times> draws) list \<Rightarrow> globals \<Rightarrow> (error \<times> globals) + globals" where
  "calls [] s = Inr s"
| "calls ((e, us) # cs) s =
     (case call e us s of Inl x \<Rightarrow> Inl x | Inr s' \<Rightarrow> calls cs s')"

text \<open>
  The loop of a call inside the call: the grid and the list \<open>b\<close> once the loop has
  processed the agents \<open>as\<close>, the first ones of the registry; \<open>None\<close> when it has thrown
  by then.
\<close>

fun progress :: "engine \<Rightarrow> draws \<Rightarrow> globals \<Rightarrow> agent list \<Rightarrow> (grid \<times> agent list) option" where
  "progress Simulate2 us s as =
     (case agentLoop2 us (mpm s) (filterPost s) (filterType s) as
             (world s, [], filterCount s) of
        Inl _ \<Rightarrow> None
      | Inr (w, b, fc) \<Rightarrow> Some (w, b))"
| "progress e us s as =
     (case agentLoop us (mpm s) as (world s, []) of
        Inl _ \<Rightarrow> None
      | Inr st \<Rightarrow> Some st)"

section \<open>Grid and registry in step\<close>

text \<open>A movement probability matrix as the \<^verbatim>\<open>MPMAT\<close> directive gives it: three rows of three.\<close>

definition is3x3 :: "matrix \<Rightarrow> bool" where
  "is3x3 m = (length m = 3 \<and> list_all (\<lambda>r. length r = 3) m)"

text \<open>The cell an agent record names.\<close>

definition pos :: "agent \<Rightarrow> int \<times> int" where
  "pos a = (fst a, fst (snd a))"

text \<open>The outermost rows and columns of a world of \<open>wd\<close> columns and \<open>ht\<close> rows.\<close>

definition border :: "int \<Rightarrow> int \<Rightarrow> (int \<times> int) set" where
  "border wd ht =
     {(x, y). 0 \<le> x \<and> x < wd \<and> 0 \<le> y \<and> y < ht \<and> (x = 0 \<or> x = wd - 1 \<or> y = 0 \<or> y = ht - 1)}"

text \<open>
  \<open>W\<close> is the set of the cells that the \<^verbatim>\<open>WALL\<close> directives have drawn: walls and filter
  walls. The grid has all the cells of the world, the border is walled, and a wall cell
  holds a nonzero code.
\<close>

definition grid_ok :: "(int \<times> int) set \<Rightarrow> int \<Rightarrow> int \<Rightarrow> grid \<Rightarrow> bool" where
  "grid_ok W wd ht w =
     ((\<forall>x y. 0 \<le> x \<and> x < wd \<and> 0 \<le> y \<and> y < ht \<longrightarrow> (\<exists>v. cell w x y = Inr (Some v))) \<and>
      border wd ht \<subseteq> W \<and>
      (\<forall>(x, y) \<in> W. \<exists>v. cell w x y = Inr (Some v) \<and> v \<noteq> 0))"

text \<open>
  An agent stands on an interior cell that is no wall cell, its type is not the code 0
  of an empty cell, the cell holds its type, and its type has a 3 by 3 matrix.
\<close>

definition agent_ok :: "(int \<times> int) set \<Rightarrow> int \<Rightarrow> int \<Rightarrow> grid \<Rightarrow> (int \<rightharpoonup> matrix) \<Rightarrow> agent \<Rightarrow> bool" where
  "agent_ok W wd ht w mp a =
     (case a of (x, y, ty) \<Rightarrow>
        0 < x \<and> x < wd - 1 \<and> 0 < y \<and> y < ht - 1 \<and> (x, y) \<notin> W \<and> ty \<noteq> 0 \<and>
        cell w x y = Inr (Some ty) \<and> (\<exists>m. mp ty = Some m \<and> is3x3 m))"

text \<open>Every nonzero cell that is no wall cell is the cell of a registry agent of that type.\<close>

definition accounted :: "(int \<times> int) set \<Rightarrow> grid \<Rightarrow> agent list \<Rightarrow> bool" where
  "accounted W w as =
     (\<forall>x y v. cell w x y = Inr (Some v) \<and> v \<noteq> 0 \<and> (x, y) \<notin> W \<longrightarrow> (x, y, v) \<in> set as)"

text \<open>A well-formed grid and registry: the above, and no two agents on one cell.\<close>

definition well_formed :: "(int \<times> int) set \<Rightarrow> int \<Rightarrow> int \<Rightarrow> grid \<Rightarrow> agent list \<Rightarrow> (int \<rightharpoonup> matrix) \<Rightarrow> bool" where
  "well_formed W wd ht w as mp =
     (grid_ok W wd ht w \<and> list_all (agent_ok W wd ht w mp) as \<and> distinct (map pos as) \<and>
      accounted W w as)"

text \<open>
  The synchronisation property: every registry agent \<open>(x, y, ty)\<close> has \<open>world[y][x] = ty\<close>,
  and every cell with a nonzero value that is no wall or filter cell has exactly one
  registry agent at its position, of that type.
\<close>

definition synced :: "(int \<times> int) set \<Rightarrow> grid \<Rightarrow> agent list \<Rightarrow> bool" where
  "synced W w as =
     ((\<forall>(x, y, ty) \<in> set as. cell w x y = Inr (Some ty)) \<and>
      (\<forall>x y v. cell w x y = Inr (Some v) \<and> v \<noteq> 0 \<and> (x, y) \<notin> W \<longrightarrow>
         (\<exists>i<length as. as ! i = (x, y, v) \<and> (\<forall>j<length as. pos (as ! j) = (x, y) \<longrightarrow> j = i))))"

text \<open>A well-formed state: grid and registry well-formed, and the filters at distinct columns.\<close>

definition well_formed_state :: "(int \<times> int) set \<Rightarrow> int \<Rightarrow> int \<Rightarrow> globals \<Rightarrow> bool" where
  "well_formed_state W wd ht s =
     (well_formed W wd ht (world s) (agents s) (mpm s) \<and> distinct (filterPost s))"

text \<open>
  Draws that always select a direction: each is non-negative and, for every matrix of
  the table, the running total of the scan exceeds it at some cell.
\<close>

definition draws_ok :: "(int \<rightharpoonup> matrix) \<Rightarrow> draws \<Rightarrow> bool" where
  "draws_ok mp us =
     (\<forall>i ty m. mp ty = Some m \<longrightarrow>
        0 \<le> us i \<and> (\<exists>k\<le>9. exceeds (running_total (Fin 0) (take k (concat m))) (us i)))"

definition covered :: "(int \<rightharpoonup> matrix) \<Rightarrow> (engine \<times> draws) list \<Rightarrow> bool" where
  "covered mp cs = list_all (\<lambda>c. draws_ok mp (snd c)) cs"

section \<open>Configurations\<close>

text \<open>
  A matrix of doubles whose entries sum to one; every partial sum of the first row but
  the first is not a double.
\<close>

definition ulp_matrix :: matrix where
  "ulp_matrix =
     [[1 / 2, 1 / 2 ^ 54, 1 / 2 ^ 54], [1 / 2 ^ 54, 1 / 2 ^ 54, 1 / 2 - 1 / 2 ^ 52], [0, 0, 0]]"

text \<open>
  The doubles that the decimals 0.02, 0.3, 0.09 and 0.08 denote, in the first four cells
  of the scan.
\<close>

definition decimal_matrix :: matrix where
  "decimal_matrix =
     [[5764607523034235 / 2 ^ 58, 5404319552844595 / 2 ^ 54, 3242591731706757 / 2 ^ 55],
      [5764607523034235 / 2 ^ 56, 0, 0], [0, 0, 0]]"

text \<open>Matrices: all zero; all the mass on row 1, column 2, that is \<open>(dx, dy) = (1, 0)\<close>.\<close>

definition zero3 :: matrix where
  "zero3 = [[0, 0, 0], [0, 0, 0], [0, 0, 0]]"

definition right3 :: matrix where
  "right3 = [[0, 0, 0], [0, 0, 1], [0, 0, 0]]"

text \<open>Half of the mass on the cell above, half on the cell below.\<close>

definition updown3 :: matrix where
  "updown3 = [[0, 1 / 2, 0], [0, 0, 0], [0, 1 / 2, 0]]"

text \<open>Draws: the same value for every draw of a call, or of all calls; \<open>1 / 4\<close> and \<open>3 / 4\<close> in turn.\<close>

definition const_draws :: "real \<Rightarrow> draws" where
  "const_draws u i = u"

definition same_draws :: "real \<Rightarrow> nat \<Rightarrow> draws" where
  "same_draws u k i = u"

definition updown_draws :: "nat \<Rightarrow> draws" where
  "updown_draws k i = (if even k then 1 / 4 else 3 / 4)"

text \<open>
  The end-to-end scenario: \<^verbatim>\<open>WORLD 5 5\<close>, the border walled with code 10 (indices 0 and
  4, as \<^verbatim>\<open>addEnclosedWall\<close> walls 0 and 39 of a world of 40), one agent of type 48 at
  \<open>(2, 2)\<close> that always moves right.
\<close>

definition e2e :: globals where
  "e2e = \<lparr>world = grid_of [[10, 10, 10, 10, 10],
                            [10,  0,  0,  0, 10],
                            [10,  0, 48,  0, 10],
                            [10,  0,  0,  0, 10],
                            [10, 10, 10, 10, 10]],
          agents = [(2, 2, 48)],
          mpm = [48 \<mapsto> right3],
          tm = 0, tend = None, timer = True,
          filterPost = [], filterType = [], filterCount = []\<rparr>"

text \<open>The scenario once the agent has moved to \<open>(3, 2)\<close>, at time \<open>n\<close>.\<close>

definition e2e_moved :: "int \<Rightarrow> globals" where
  "e2e_moved n = e2e\<lparr>world := put (put (world e2e) 3 2 (Some 48)) 2 2 (Some 0),
                     agents := [(3, 2, 48)], tm := n\<rparr>"

text \<open>
  The same scenario in a world of 6 by 6 cells, \<^verbatim>\<open>WORLD 6 6\<close>, walled at indices 0 and 5,
  and its states with the agent at \<open>(x, 2)\<close> for \<open>x = 3\<close> and for \<open>x = 4\<close>, at time \<open>n\<close>.
\<close>

definition e2e6 :: globals where
  "e2e6 = \<lparr>world = grid_of [[10, 10, 10, 10, 10, 10],
                             [10,  0,  0,  0,  0, 10],
                             [10,  0, 48,  0,  0, 10],
                             [10,  0,  0,  0,  0, 10],
                             [10,  0,  0,  0,  0, 10],
                             [10, 10, 10, 10, 10, 10]],
           agents = [(2, 2, 48)],
           mpm = [48 \<mapsto> right3],
           tm = 0, tend = None, timer = True,
           filterPost = [], filterType = [], filterCount = []\<rparr>"

definition e2e6_moved :: "int \<Rightarrow> int \<Rightarrow> globals" where
  "e2e6_moved x n =
     e2e6\<lparr>world := (if x = 3 then put (put (world e2e6) 3 2 (Some 48)) 2 2 (Some 0)
                      else put (put (put (put (world e2e6) 3 2 (Some 48)) 2 2 (Some 0))
                             4 2 (Some 48)) 3 2 (Some 0)),
           agents := [(x, 2, 48)], tm := n\<rparr>"

text \<open>Two agents, the second of a type that has no matrix.\<close>

definition missing_mpm_config :: globals where
  "missing_mpm_config =
     \<lparr>world = grid_of [[10, 10, 10, 10, 10],
                       [10, 48,  0,  0, 10],
                       [10,  0,  0,  0, 10],
                       [10,  0,  0, 41, 10],
                       [10, 10, 10, 10, 10]],
      agents = [(1, 1, 48), (3, 3, 41)],
      mpm = [48 \<mapsto> right3],
      tm = 0, tend = None, timer = True,
      filterPost = [], filterType = [], filterCount = []\<rparr>"

text \<open>
  Two agents in a row that both always move right; the one in front comes first in
  the registry.
\<close>

definition follow_config :: globals where
  "follow_config =
     \<lparr>world = grid_of [[10, 10, 10, 10, 10],
                       [10, 48, 48,  0, 10],
                       [10,  0,  0,  0, 10],
                       [10,  0,  0,  0, 10],
                       [10, 10, 10, 10, 10]],
      agents = [(2, 1, 48), (1, 1, 48)],
      mpm = [48 \<mapsto> right3],
      tm = 0, tend = None, timer = True,
      filterPost = [], filterType = [], filterCount = []\<rparr>"

text \<open>The same two agents, the one behind first in the registry.\<close>

definition queue_config :: globals where
  "queue_config = follow_config\<lparr>agents := [(1, 1, 48), (2, 1, 48)]\<rparr>"

text \<open>
  The two agents one step later: the one in front stands at the wall, the other one
  behind it.
\<close>

definition packed_config :: globals where
  "packed_config =
     follow_config\<lparr>world := grid_of [[10, 10, 10, 10, 10],
                                      [10,  0, 48, 48, 10],
                                      [10,  0,  0,  0, 10],
                                      [10,  0,  0,  0, 10],
                                      [10, 10, 10, 10, 10]],
                    agents := [(3, 1, 48), (2, 1, 48)]\<rparr>"

text \<open>
  Two agents on a walled 5 by 5 world; both types have a matrix, the matrix of type 41
  is all zero.
\<close>

definition stuck_config :: globals where
  "stuck_config =
     \<lparr>world = grid_of [[10, 10, 10, 10, 10],
                       [10, 48,  0,  0, 10],
                       [10,  0,  0,  0, 10],
                       [10,  0,  0, 41, 10],
                       [10, 10, 10, 10, 10]],
      agents = [(1, 1, 48), (3, 3, 41)],
      mpm = [48 \<mapsto> right3, 41 \<mapsto> zero3],
      tm = 0, tend = None, timer = True,
      filterPost = [], filterType = [], filterCount = []\<rparr>"

text \<open>
  A walled 5 by 5 world with one filter at column 2 for type 47, and one agent of type
  48 standing on that column, moving up or down.
\<close>

definition column_config :: globals where
  "column_config =
     \<lparr>world = grid_of [[10, 10, 10, 10, 10],
                       [10,  0,  0,  0, 10],
                       [10,  0, 48,  0, 10],
                       [10,  0,  0,  0, 10],
                       [10, 10, 10, 10, 10]],
      agents = [(2, 2, 48)],
      mpm = [48 \<mapsto> updown3],
      tm = 0, tend = None, timer = True,
      filterPost = [2], filterType = [47], filterCount = [Some 0]\<rparr>"

text \<open>
  The same filter, and one agent of type \<open>ty\<close> at \<open>(1, 2)\<close> that always moves right,
  onto the filter column.
\<close>

definition crossing_config :: "int \<Rightarrow> globals" where
  "crossing_config ty =
     \<lparr>world = grid_of [[10, 10, 10, 10, 10],
                       [10,  0,  0,  0, 10],
                       [10, ty,  0,  0, 10],
                       [10,  0,  0,  0, 10],
                       [10, 10, 10, 10, 10]],
      agents = [(1, 2, ty)],
      mpm = [ty \<mapsto> right3],
      tm = 0, tend = None, timer = True,
      filterPost = [2], filterType = [47], filterCount = [Some 0]\<rparr>"

text \<open>\<open>column_config\<close> once the agent has moved up to \<open>(2, 1)\<close>.\<close>

definition column_up :: globals where
  "column_up =
     column_config\<lparr>world := put (put (world column_config) 2 1 (Some 48)) 2 2 (Some 0),
                    agents := [(2, 1, 48)], tm := 1, filterCount := [Some 1]\<rparr>"



section \<open>Properties of the rounding\<close>

text \<open>
  The search finds the binade of a magnitude: \<open>2 ^ e \<le> \<bar>r\<bar> < 2 ^ (e + 1)\<close> for the exponent
  \<open>e\<close> it returns, but for the bounds \<open>- 1022\<close> and \<open>1023\<close> at which it stops.
\<close>

lemma expo_search_range: "- 1022 \<le> expo_search n a \<and> expo_search n a \<le> int n - 1022"
  by (induction n) auto

lemma expo_search_lower: "- 1022 < expo_search n a \<Longrightarrow> 2 powi (expo_search n a) \<le> a"
  by (induction n) (auto split: if_splits)

lemma expo_search_upper:
  "expo_search n a < int n - 1022 \<Longrightarrow> a < 2 powi (expo_search n a + 1)"
proof (induction n)
  case 0
  then show ?case by simp
next
  case (Suc n)
  show ?case
  proof (cases "2 powi (int n - 1021) \<le> a")
    case True
    with Suc.prems show ?thesis by simp
  next
    case False
    then have e: "expo_search (Suc n) a = expo_search n a" by simp
    show ?thesis
    proof (cases "expo_search n a < int n - 1022")
      case True
      with Suc.IH e show ?thesis by simp
    next
      case False
      with expo_search_range[of n a] have "expo_search n a = int n - 1022" by simp
      then have eq: "expo_search (Suc n) a + 1 = int n - 1021" using e by simp
      from \<open>\<not> 2 powi (int n - 1021) \<le> a\<close> have "a < 2 powi (int n - 1021)" by simp
      then show ?thesis by (simp only: eq)
    qed
  qed
qed

lemma expo_range: "- 1022 \<le> expo r" "expo r \<le> 1023"
  using expo_search_range[of 2045 "\<bar>r\<bar>"] by (simp_all add: expo_def)

lemma expo_lower: "- 1022 < expo r \<Longrightarrow> 2 powi (expo r) \<le> \<bar>r\<bar>"
  unfolding expo_def by (rule expo_search_lower)

lemma expo_upper: "expo r < 1023 \<Longrightarrow> \<bar>r\<bar> < 2 powi (expo r + 1)"
  unfolding expo_def using expo_search_upper[of 2045 "\<bar>r\<bar>"] by simp


lemma expo_unique:
  assumes "- 1022 \<le> e" "e \<le> 1023" "2 powi e \<le> \<bar>r\<bar>" "\<bar>r\<bar> < 2 powi (e + 1)"
  shows "expo r = e"
proof (rule ccontr)
  assume ne: "expo r \<noteq> e"
  show False
  proof (cases "expo r < e")
    case True
    with assms(2) have "expo r < 1023" by simp
    from expo_upper[OF this] have "\<bar>r\<bar> < 2 powi (expo r + 1)" .
    also have "\<dots> \<le> 2 powi e" using True by (intro power_int_increasing) auto
    finally show False using assms(3) by simp
  next
    case False
    with ne have g: "e < expo r" by simp
    with assms(1) have "- 1022 < expo r" by simp
    from expo_lower[OF this] have "2 powi (expo r) \<le> \<bar>r\<bar>" .
    moreover have "2 powi (e + 1) \<le> (2::real) powi (expo r)"
      using g by (intro power_int_increasing) auto
    ultimately show False using assms(4) by simp
  qed
qed

lemma expo_small: "\<bar>r\<bar> < 2 powi (- 1021) \<Longrightarrow> expo r = - 1022"
  using expo_lower[of r] expo_range(1)[of r]
  by (smt (verit) power_int_increasing)

lemma quantum_pos: "0 < quantum r"
  by (simp add: quantum_def)

text \<open>Rounding to the nearest integer stays between floor and ceiling.\<close>

lemma nearest_even_bounds: "\<lfloor>z\<rfloor> \<le> nearest_even z" "nearest_even z \<le> \<lceil>z\<rceil>"
proof -
  show "\<lfloor>z\<rfloor> \<le> nearest_even z" by (simp add: nearest_even_def Let_def)
  show "nearest_even z \<le> \<lceil>z\<rceil>"
  proof (cases "z = of_int \<lfloor>z\<rfloor>")
    case True
    then show ?thesis by (simp add: nearest_even_def Let_def)
  next
    case False
    then have "\<lceil>z\<rceil> = \<lfloor>z\<rfloor> + 1" by (simp add: ceiling_altdef)
    then show ?thesis by (simp add: nearest_even_def Let_def)
  qed
qed

lemma nearest_even_int: "nearest_even (of_int k) = k"
  by (simp add: nearest_even_def)


text \<open>
  A double that is not below \<open>r\<close> is not below the rounded \<open>r\<close> either: a double is a
  multiple of the quantum of every binade that is not above its own.
\<close>

lemma two_powi_split: "(2::real) powi (a + b) = 2 powi a * 2 powi b"
  by (simp add: power_int_add)

lemma on_grid:
  assumes "e - 52 \<le> q"
  shows "\<exists>M::int. of_int m * (2::real) powi q = of_int M * 2 powi (e - 52)"
proof -
  have "(2::real) powi q = 2 powi (q - (e - 52)) * 2 powi (e - 52)"
    using two_powi_split[of "q - (e - 52)" "e - 52"] by simp
  also have "(2::real) powi (q - (e - 52)) = of_int (2 ^ nat (q - (e - 52)))"
    using assms by (simp add: power_int_def)
  finally have "of_int m * (2::real) powi q =
      of_int (m * 2 ^ nat (q - (e - 52))) * 2 powi (e - 52)"
    by simp
  then show ?thesis by blast
qed

lemma below_binade:
  assumes "\<bar>m\<bar> < 2 ^ 53" and "q < e - 52"
  shows "\<bar>of_int m * (2::real) powi q\<bar> < 2 powi e"
proof -
  have "\<bar>of_int m * (2::real) powi q\<bar> = of_int \<bar>m\<bar> * 2 powi q"
    by (simp add: abs_mult)
  also have "\<dots> < 2 ^ 53 * 2 powi q"
  proof -
    from assms(1) have "(of_int \<bar>m\<bar> :: real) < of_int (2 ^ 53)" by (simp only: of_int_less_iff)
    then show ?thesis by simp
  qed
  also have "\<dots> = 2 powi (53 + q)"
    using two_powi_split[of 53 q] by simp
  also have "\<dots> \<le> 2 powi e"
    using assms(2) by (intro power_int_increasing) auto
  finally show ?thesis .
qed

lemma rnd_le_dbl:
  assumes "is_dbl d" and "r \<le> d"
  shows "rnd r \<le> d"
proof -
  from assms(1) obtain m q where
    d: "d = of_int m * 2 powi q" and m: "\<bar>m\<bar> < 2 ^ 53" and q: "- 1074 \<le> q"
    unfolding is_dbl_def by blast
  define e where "e = expo r"
  define Q where "Q = (2::real) powi (e - 52)"
  define z where "z = \<bar>r\<bar> / Q"
  define k where "k = nearest_even z"
  have Q: "0 < Q" by (simp add: Q_def)
  have qu: "quantum r = Q" by (simp add: quantum_def Q_def e_def)
  have rn: "rnd r = sgn r * of_int k * Q" by (simp add: rnd_def qu k_def z_def)
  have z0: "0 \<le> z" using Q by (simp add: z_def)
  have k0: "0 \<le> k" using nearest_even_bounds(1)[of z] z0 unfolding k_def by linarith
  have zQ: "z * Q = \<bar>r\<bar>" using Q by (simp add: z_def)
  \<comment> \<open>a double of a smaller binade lies below the binade of \<open>r\<close>\<close>
  have small: "\<bar>d\<bar> < 2 powi e \<and> 2 powi e \<le> \<bar>r\<bar> \<and> 2 ^ 52 \<le> z" if "q < e - 52"
  proof -
    from that q have "- 1022 < e" by simp
    from expo_lower[of r] this have lo: "2 powi e \<le> \<bar>r\<bar>" by (simp add: e_def)
    have "(2::real) powi e = 2 powi 52 * Q"
      using two_powi_split[of 52 "e - 52"] by (simp add: Q_def)
    with lo zQ have "2 powi 52 * Q \<le> z * Q" by simp
    with Q have "2 ^ 52 \<le> z" by simp
    with below_binade[OF m that] lo show ?thesis by (simp add: d)
  qed
  show ?thesis
  proof (cases "e - 52 \<le> q")
    case True
    from on_grid[OF this, of m] obtain M :: int where M: "d = of_int M * Q"
      by (auto simp: d Q_def)
    consider "0 < r" | "r = 0" | "r < 0" by linarith
    then show ?thesis
    proof cases
      case 1
      with assms(2) zQ M have "z * Q \<le> of_int M * Q" by simp
      with Q have "z \<le> of_int M" by simp
      then have "\<lceil>z\<rceil> \<le> M" by (simp add: ceiling_le_iff)
      with nearest_even_bounds(2)[of z] have "k \<le> M" unfolding k_def by linarith
      then have "(of_int k :: real) \<le> of_int M" by simp
      with Q have "of_int k * Q \<le> of_int M * Q" by (simp only: mult_le_cancel_right_pos)
      with 1 show ?thesis by (simp add: rn M)
    next
      case 2
      with assms(2) show ?thesis by (simp add: rnd_def)
    next
      case 3
      show ?thesis
      proof (cases "0 \<le> d")
        case True
        have "0 \<le> of_int k * Q" using k0 Q by simp
        with 3 True show ?thesis by (simp add: rn)
      next
        case False
        with assms(2) 3 zQ M have "of_int (- M) * Q \<le> z * Q" by simp
        with Q have "of_int (- M) \<le> z" by (simp only: mult_le_cancel_right_pos)
        then have "- M \<le> \<lfloor>z\<rfloor>" by (simp only: le_floor_iff)
        with nearest_even_bounds(1)[of z] have "- M \<le> k" unfolding k_def by linarith
        then have "(of_int (- M) :: real) \<le> of_int k" by (simp only: of_int_le_iff)
        with Q have "of_int (- M) * Q \<le> of_int k * Q" by (simp only: mult_le_cancel_right_pos)
        then have "- (of_int k * Q) \<le> of_int M * Q" by simp
        with 3 show ?thesis by (simp add: rn M)
      qed
    qed
  next
    case False
    then have s: "\<bar>d\<bar> < 2 powi e" "2 powi e \<le> \<bar>r\<bar>" "2 ^ 52 \<le> z" using small by simp_all
    consider "0 \<le> r" | "r < 0" by linarith
    then show ?thesis
    proof cases
      case 1
      with s assms(2) show ?thesis by simp
    next
      case 2
      from s(3) have "(of_int (2 ^ 52) :: real) \<le> z" by simp
      then have "2 ^ 52 \<le> \<lfloor>z\<rfloor>" by (simp only: le_floor_iff)
      with nearest_even_bounds(1)[of z] have "2 ^ 52 \<le> k" unfolding k_def by linarith
      then have "(of_int (2 ^ 52) :: real) \<le> of_int k" by (simp only: of_int_le_iff)
      with Q have "of_int (2 ^ 52) * Q \<le> of_int k * Q" by (simp only: mult_le_cancel_right_pos)
      moreover have "(2::real) powi e = of_int (2 ^ 52) * Q"
        using two_powi_split[of 52 "e - 52"] by (simp add: Q_def)
      ultimately have "2 powi e \<le> of_int k * Q" by simp
      with s(1) have "- (of_int k * Q) < d" by simp
      with 2 show ?thesis by (simp add: rn)
    qed
  qed
qed


text \<open>A double rounds to itself, and what rounding returns below the overflow is a double.\<close>

lemma rnd_zero: "rnd 0 = 0"
  by (simp add: rnd_def)

lemma rnd_dbl:
  assumes "is_dbl d"
  shows "rnd d = d"
proof (cases "d = 0")
  case True
  then show ?thesis by (simp add: rnd_zero)
next
  case False
  from assms obtain m q where
    d: "d = of_int m * 2 powi q" and m: "\<bar>m\<bar> < 2 ^ 53" and q: "- 1074 \<le> q"
    unfolding is_dbl_def by blast
  define e where "e = expo d"
  define Q where "Q = (2::real) powi (e - 52)"
  have Q: "0 < Q" by (simp add: Q_def)
  have qu: "quantum d = Q" by (simp add: quantum_def Q_def e_def)
  have "e - 52 \<le> q"
  proof (rule ccontr)
    assume "\<not> e - 52 \<le> q"
    then have lt: "q < e - 52" by simp
    with q have "- 1022 < e" by simp
    from expo_lower[of d] this have "2 powi e \<le> \<bar>d\<bar>" by (simp add: e_def)
    with below_binade[OF m lt] show False by (simp add: d)
  qed
  from on_grid[OF this, of m] obtain M :: int where M: "d = of_int M * Q"
    by (auto simp: d Q_def)
  have "\<bar>d\<bar> / Q = of_int \<bar>M\<bar>" using Q by (simp add: M abs_mult)
  then have "nearest_even (\<bar>d\<bar> / quantum d) = \<bar>M\<bar>"
    by (simp only: qu nearest_even_int)
  then have "rnd d = sgn d * (of_int \<bar>M\<bar> * Q)" by (simp add: rnd_def qu)
  also have "of_int \<bar>M\<bar> * Q = \<bar>d\<bar>" using Q by (simp add: M abs_mult)
  finally show ?thesis by (simp add: sgn_mult_abs)
qed

lemma rnd_is_dbl:
  assumes "\<bar>rnd r\<bar> < huge"
  shows "is_dbl (rnd r)"
proof (cases "r = 0")
  case True
  have "(0::real) = of_int 0 * 2 powi 0" by simp
  then have "is_dbl 0" unfolding is_dbl_def by (intro exI[of _ 0] conjI) auto
  with True show ?thesis by (simp add: rnd_zero)
next
  case False
  define e where "e = expo r"
  define Q where "Q = (2::real) powi (e - 52)"
  define z where "z = \<bar>r\<bar> / Q"
  define k where "k = nearest_even z"
  have Q: "0 < Q" by (simp add: Q_def)
  have qu: "quantum r = Q" by (simp add: quantum_def Q_def e_def)
  have rn: "rnd r = sgn r * of_int k * Q" by (simp add: rnd_def qu k_def z_def)
  have z0: "0 \<le> z" using Q by (simp add: z_def)
  have k0: "0 \<le> k" using nearest_even_bounds(1)[of z] z0 unfolding k_def by linarith
  have zQ: "z * Q = \<bar>r\<bar>" using Q by (simp add: z_def)
  have er: "- 1022 \<le> e" "e \<le> 1023" using expo_range[of r] by (simp_all add: e_def)
  have top: "(2::real) powi (e + 1) = of_int (2 ^ 53) * Q"
  proof -
    have "e + 1 = 53 + (e - 52)" by simp
    then have "(2::real) powi (e + 1) = 2 powi 53 * 2 powi (e - 52)"
      by (simp only: two_powi_split)
    then show ?thesis by (simp add: Q_def)
  qed
  have ab: "\<bar>rnd r\<bar> = of_int k * Q" using False k0 Q by (simp add: rn abs_mult)
  have k53: "k \<le> 2 ^ 53"
  proof (cases "e < 1023")
    case True
    from expo_upper[of r] True have "\<bar>r\<bar> < 2 powi (e + 1)" by (simp add: e_def)
    with zQ top have "z * Q < of_int (2 ^ 53) * Q" by simp
    with Q have "z < of_int (2 ^ 53)" by (simp only: mult_less_cancel_right_pos)
    then have "z \<le> of_int (2 ^ 53)" by simp
    then have "\<lceil>z\<rceil> \<le> 2 ^ 53" by (simp only: ceiling_le_iff)
    with nearest_even_bounds(2)[of z] show ?thesis unfolding k_def by linarith
  next
    case False
    with er have "e + 1 = 1024" by simp
    with top have "huge = of_int (2 ^ 53) * Q" by (simp only: huge_def)
    with assms ab have "of_int k * Q < of_int (2 ^ 53) * Q" by simp
    with Q have "(of_int k :: real) < of_int (2 ^ 53)" by (simp only: mult_less_cancel_right_pos)
    then have "k < 2 ^ 53" by (simp only: of_int_less_iff)
    then show ?thesis by simp
  qed
  define sg :: int where "sg = (if 0 < r then 1 else - 1)"
  have sg: "sgn r = of_int sg" using False by (simp add: sg_def sgn_if)
  show ?thesis
  proof (cases "k = 2 ^ 53")
    case True
    have "(2::real) powi (e - 51) = 2 * Q" using two_powi_split[of 1 "e - 52"] by (simp add: Q_def)
    then have "rnd r = of_int (sg * 2 ^ 52) * 2 powi (e - 51)"
      by (simp add: rn sg True)
    moreover have "\<bar>sg * 2 ^ 52\<bar> < (2::int) ^ 53" by (simp add: sg_def)
    moreover have "- 1074 \<le> e - 51" using er by simp
    ultimately show ?thesis unfolding is_dbl_def by blast
  next
    case False
    with k53 have "k < 2 ^ 53" by simp
    with k0 have "\<bar>sg * k\<bar> < 2 ^ 53" by (simp add: sg_def)
    moreover have "rnd r = of_int (sg * k) * 2 powi (e - 52)" by (simp add: rn sg Q_def)
    moreover have "- 1074 \<le> e - 52" using er by simp
    ultimately show ?thesis unfolding is_dbl_def by blast
  qed
qed

lemma huge_pos: "0 < huge"
  by (simp add: huge_def)

lemma to_double_dbl:
  assumes "is_dbl d" and "\<bar>d\<bar> < huge"
  shows "to_double d = Fin d"
proof -
  from assms(2) have "\<not> huge \<le> d" "\<not> d \<le> - huge" by linarith+
  then show ?thesis by (simp add: to_double_def rnd_dbl[OF assms(1)] Let_def)
qed

lemma to_double_Fin:
  assumes "to_double r = Fin d"
  shows "d = rnd r \<and> is_dbl d \<and> \<bar>d\<bar> < huge"
proof -
  from assms have d: "d = rnd r" and "\<not> huge \<le> rnd r" "\<not> rnd r \<le> - huge"
    by (auto simp: to_double_def Let_def split: if_splits)
  then have "\<bar>rnd r\<bar> < huge" by linarith
  with rnd_is_dbl[OF this] d show ?thesis by simp
qed

lemma one_below_huge: "1 < huge"
proof -
  have "(2::real) powi 0 < 2 powi 1024" by (intro power_int_strict_increasing) auto
  then show ?thesis by (simp only: huge_def) simp
qed

lemma is_dbl_I: "d = of_int m * 2 powi q \<Longrightarrow> \<bar>m\<bar> < 2 ^ 53 \<Longrightarrow> - 1074 \<le> q \<Longrightarrow> is_dbl d"
  unfolding is_dbl_def by blast

lemma is_dbl_0: "is_dbl 0"
  by (rule is_dbl_I[of _ 0 0]) simp_all

lemma is_dbl_1: "is_dbl 1"
  by (rule is_dbl_I[of _ 1 0]) simp_all

lemma is_dbl_half: "is_dbl (1 / 2)"
  by (rule is_dbl_I[of _ 1 "- 1"]) simp_all

lemma to_double_0: "to_double 0 = Fin 0"
  using to_double_dbl[OF is_dbl_0] huge_pos by simp

lemma to_double_1: "to_double 1 = Fin 1"
  using to_double_dbl[OF is_dbl_1] one_below_huge by simp

lemma to_double_half: "to_double (1 / 2) = Fin (1 / 2)"
  using to_double_dbl[OF is_dbl_half] one_below_huge by simp

text \<open>
  The rounding of a positive \<open>r\<close> from its binade \<open>e\<close> and its place \<open>f + t\<close> on the grid of
  that binade, \<open>0 \<le> t < 1\<close>.
\<close>

lemma rnd_at:
  assumes e: "- 1022 \<le> e" "e \<le> 1023" and lo: "2 powi e \<le> r" and hi: "r < 2 powi (e + 1)"
    and r: "r = (of_int f + t) * 2 powi (e - 52)" and t: "0 \<le> t" "t < 1"
  shows "rnd r = of_int (if t < 1 / 2 then f else if 1 / 2 < t then f + 1
                         else if even f then f else f + 1) * 2 powi (e - 52)"
proof -
  have "(0::real) < 2 powi e" by simp
  with lo have pos: "0 < r" by linarith
  then have ab: "\<bar>r\<bar> = r" by simp
  have ex: "expo r = e" using expo_unique[of e r] e lo hi ab by simp
  have q: "quantum r = 2 powi (e - 52)" by (simp add: quantum_def ex)
  have "r / 2 powi (e - 52) = of_int f + t" unfolding r by simp
  then have z: "\<bar>r\<bar> / quantum r = of_int f + t" by (simp only: ab q)
  have fl: "\<lfloor>of_int f + t\<rfloor> = f" using t by linarith
  have ne: "nearest_even (\<bar>r\<bar> / quantum r) =
    (if t < 1 / 2 then f else if 1 / 2 < t then f + 1 else if even f then f else f + 1)"
    unfolding z by (simp add: nearest_even_def fl Let_def)
  have "rnd r = of_int (nearest_even (\<bar>r\<bar> / quantum r)) * quantum r"
    using pos by (simp add: rnd_def)
  then have "rnd r = of_int (if t < 1 / 2 then f else if 1 / 2 < t then f + 1
                              else if even f then f else f + 1) * quantum r"
    by (simp only: ne)
  then show ?thesis by (simp only: q)
qed

lemma to_double_rnd: "rnd r = d \<Longrightarrow> \<bar>d\<bar> < huge \<Longrightarrow> to_double r = Fin d"
  by (auto simp: to_double_def Let_def)


section \<open>Properties of the direction sampler\<close>

text \<open>
  One addition of the scan, from a running total that is a double not above the draw:
  the new total exceeds the draw only if the entry added is positive, and is a double
  not above the draw otherwise.
\<close>

lemma plus_num_step:
  assumes "below y x"
  shows "(exceeds (plus_num y ev) x \<longrightarrow> (\<exists>v. ev = Some v \<and> 0 < v)) \<and>
         (\<not> exceeds (plus_num y ev) x \<longrightarrow> below (plus_num y ev) x)"
proof (cases ev)
  case None
  then show ?thesis by simp
next
  case (Some v)
  show ?thesis
  proof (cases y)
    case (Fin a)
    with assms have a: "is_dbl a" "a \<le> x" "\<bar>a\<bar> < huge" by simp_all
    have le: "rnd (a + v) \<le> a" if "v \<le> 0"
      using rnd_le_dbl[OF a(1), of "a + v"] that by simp
    show ?thesis
    proof (cases "to_double (a + v)")
      case (Fin d)
      from to_double_Fin[OF Fin] have d: "d = rnd (a + v)" "is_dbl d" "\<bar>d\<bar> < huge" by blast+
      show ?thesis using le d a Some Fin \<open>y = Fin a\<close> by (cases "v \<le> 0") auto
    next
      case PInf
      then have "huge \<le> rnd (a + v)"
        by (simp add: to_double_def Let_def split: if_splits)
      with le a have "0 < v" by (cases "v \<le> 0") auto
      then show ?thesis using Some PInf \<open>y = Fin a\<close> by simp
    next
      case NInf
      then show ?thesis using Some \<open>y = Fin a\<close> by simp
    next
      case NaN
      then show ?thesis using Some \<open>y = Fin a\<close> by simp
    qed
  qed (use assms Some in simp_all)
qed

lemma colLoop_pos:
  "colLoop x mr r cs y = Inl (dx, dy) \<Longrightarrow> below y x \<Longrightarrow>
   \<exists>c\<in>set cs. dx = int c - 1 \<and> dy = int r - 1 \<and> c < length mr \<and> 0 < mr ! c"
proof (induction cs arbitrary: y)
  case Nil
  then show ?case by simp
next
  case (Cons c cs)
  from plus_num_step[OF Cons.prems(2), of "elem mr c"] Cons show ?case
    by (auto simp: Let_def elem_def split: if_splits)
qed

lemma colLoop_le:
  "colLoop x mr r cs y = Inr y' \<Longrightarrow> below y x \<Longrightarrow> below y' x"
proof (induction cs arbitrary: y)
  case Nil
  then show ?case by simp
next
  case (Cons c cs)
  from plus_num_step[OF Cons.prems(2), of "elem mr c"] Cons show ?case
    by (auto simp: Let_def split: if_splits)
qed

lemma rowLoop_pos:
  "rowLoop x m C rs y = Some (dx, dy) \<Longrightarrow> below y x \<Longrightarrow>
   \<exists>r\<in>set rs. \<exists>c<C. dx = int c - 1 \<and> dy = int r - 1 \<and> c < length (m ! r) \<and> 0 < m ! r ! c"
proof (induction rs arbitrary: y)
  case Nil
  then show ?case by simp
next
  case (Cons r rs)
  show ?case
  proof (cases "colLoop x (m ! r) r [0..<C] y")
    case (Inl d)
    with Cons.prems have "colLoop x (m ! r) r [0..<C] y = Inl (dx, dy)" by simp
    from colLoop_pos[OF this Cons.prems(2)] show ?thesis by auto
  next
    case (Inr y')
    with Cons.prems have "rowLoop x m C rs y' = Some (dx, dy)" by simp
    moreover from colLoop_le[OF Inr Cons.prems(2)] have "below y' x" .
    ultimately show ?thesis using Cons.IH by auto
  qed
qed

lemma below_start: "0 \<le> x \<Longrightarrow> below (Fin 0) x"
  using huge_pos by (simp add: is_dbl_0)

lemma generateDirection_cell:
  assumes "generateDirection u (Some m) = Inr (Some (dx, dy))" and "0 \<le> u"
  shows "\<exists>r c. r < length m \<and> c < length (hd m) \<and> c < length (m ! r) \<and>
           dx = int c - 1 \<and> dy = int r - 1 \<and> 0 < m ! r ! c"
proof (cases m)
  case Nil
  with assms show ?thesis by (simp add: generateDirection_def)
next
  case (Cons m0 ms)
  with assms have "rowLoop u m (length m0) [0..<length m] (Fin 0) = Some (dx, dy)"
    by (simp add: generateDirection_def)
  from rowLoop_pos[OF this below_start[OF assms(2)]] Cons show ?thesis by auto
qed

lemmas sampler_simps =
  generateDirection_def elem_def upt_rec to_double_0 to_double_1 to_double_half

text \<open>
  Claim C9: a direction with probability zero is never sampled. For every matrix \<open>m\<close>
  (the 3 by 3 matrices with non-negative entries among them) and every draw \<open>u \<ge> 0\<close>
  (the draws of \<open>[0, 1)\<close> among them), when \<^verbatim>\<open>generateDirection\<close> returns \<open>(dx, dy)\<close>,
  the entry \<open>m[dy + 1][dx + 1]\<close> exists and is strictly positive.
\<close>

theorem generateDirection_positive_entry:
  assumes "generateDirection u (Some m) = Inr (Some (dx, dy))" and "0 \<le> u"
  shows "0 \<le> dy + 1 \<and> nat (dy + 1) < length m \<and>
         0 \<le> dx + 1 \<and> nat (dx + 1) < length (m ! nat (dy + 1)) \<and>
         0 < m ! nat (dy + 1) ! nat (dx + 1)"
proof -
  from generateDirection_cell[OF assms] obtain r c where
    "r < length m" "c < length (m ! r)" "dx = int c - 1" "dy = int r - 1" "0 < m ! r ! c"
    by blast
  then show ?thesis by simp
qed

theorem generateDirection_positive_entry_witness:
  "generateDirection (1 / 2) (Some right3) = Inr (Some (1, 0)) \<and> (0::real) \<le> 1 / 2 \<and>
   0 < right3 ! nat (0 + 1) ! nat (1 + 1)"
proof -
  have g: "generateDirection (1 / 2) (Some right3) = Inr (Some (1, 0))"
    by (simp add: sampler_simps right3_def)
  have u: "(0::real) \<le> 1 / 2" by simp
  from generateDirection_positive_entry[OF g u] g u show ?thesis by simp
qed

lemma is3x3_explicit:
  assumes "is3x3 m"
  shows "\<exists>a b c d e f g h i. m = [[a, b, c], [d, e, f], [g, h, i]]"
proof -
  from assms obtain r0 r1 r2 where m: "m = [r0, r1, r2]"
    by (auto simp: is3x3_def numeral_3_eq_3 length_Suc_conv)
  with assms have "length r0 = 3" "length r1 = 3" "length r2 = 3"
    by (simp_all add: is3x3_def)
  then obtain a b c d e f g h i where "r0 = [a, b, c]" "r1 = [d, e, f]" "r2 = [g, h, i]"
    by (auto simp: numeral_3_eq_3 length_Suc_conv)
  with m show ?thesis by blast
qed

lemma running_total_zero: "\<forall>v\<in>set vs. v = 0 \<Longrightarrow> running_total (Fin 0) vs = Fin 0"
  by (induction vs) (simp_all add: to_double_0)

lemma scan_unfold:
  "generateDirection u (Some [[a, b, c], [d, e, f], [g, h, i]]) =
   Inr (let y1 = running_total (Fin 0) [a]; y2 = running_total (Fin 0) [a, b]; y3 = running_total (Fin 0) [a, b, c];
            y4 = running_total (Fin 0) [a, b, c, d]; y5 = running_total (Fin 0) [a, b, c, d, e];
            y6 = running_total (Fin 0) [a, b, c, d, e, f]; y7 = running_total (Fin 0) [a, b, c, d, e, f, g];
            y8 = running_total (Fin 0) [a, b, c, d, e, f, g, h];
            y9 = running_total (Fin 0) [a, b, c, d, e, f, g, h, i]
        in if exceeds y1 u then Some (- 1, - 1) else if exceeds y2 u then Some (0, - 1)
           else if exceeds y3 u then Some (1, - 1) else if exceeds y4 u then Some (- 1, 0)
           else if exceeds y5 u then Some (0, 0) else if exceeds y6 u then Some (1, 0)
           else if exceeds y7 u then Some (- 1, 1) else if exceeds y8 u then Some (0, 1)
           else if exceeds y9 u then Some (1, 1) else None)"
  by (simp add: generateDirection_def elem_def upt_rec Let_def)

text \<open>
  Claim C3, as the code has it: for every 3 by 3 matrix whose entries sum to less than
  one and whose running total, as the code accumulates it over the first \<open>k\<close> entries in
  row-major order, exceeds the draw \<open>u\<close> for no \<open>k\<close>, \<^verbatim>\<open>generateDirection\<close> runs off its
  end and returns \<^verbatim>\<open>undefined\<close>, not the direction \<open>(0, 0)\<close>. The sampler itself throws
  nothing; the step that assigns \<^verbatim>\<open>[dx, dy]\<close> from its result throws a TypeError. The
  matrices that sum to one, for which the documentation of \<^verbatim>\<open>generateDirection\<close> promises
  a direction, are left out of the statement.
\<close>

theorem generateDirection_fallthrough_undefined:
  assumes "is3x3 m" and "sum_list (concat m) < 1"
    and "\<forall>k\<le>9. \<not> exceeds (running_total (Fin 0) (take k (concat m))) u" and "mp ty = Some m"
  shows "generateDirection u (Some m) = Inr None \<and> target u mp (x, y, ty) = Inl TypeError"
proof -
  from is3x3_explicit[OF assms(1)] obtain a b c d e f g h i where
    m: "m = [[a, b, c], [d, e, f], [g, h, i]]" by blast
  have p: "\<not> exceeds (running_total (Fin 0) (take k [a, b, c, d, e, f, g, h, i])) u" if "k \<le> 9" for k
    using assms(3) that m by simp
  from p[of 1] p[of 2] p[of 3] p[of 4] p[of 5] p[of 6] p[of 7] p[of 8] p[of 9]
  have "generateDirection u (Some m) = Inr None"
    unfolding m scan_unfold by (simp add: Let_def)
  then show ?thesis using assms(4) by simp
qed

theorem generateDirection_fallthrough_undefined_witness:
  "is3x3 zero3 \<and> sum_list (concat zero3) < (1::real) \<and>
   \<not> exceeds (running_total (Fin 0) (concat zero3)) 0 \<and>
   generateDirection 0 (Some zero3) = Inr None \<and>
   target 0 [48 \<mapsto> zero3] (2, 2, 48) = Inl TypeError"
proof -
  have a: "is3x3 zero3" by (simp add: is3x3_def zero3_def)
  have z: "running_total (Fin 0) (take k (concat zero3)) = Fin 0" for k
  proof -
    have "\<forall>v \<in> set (take k (concat zero3)). v = 0"
      using set_take_subset[of k "concat zero3"] by (auto simp: zero3_def)
    then show ?thesis by (rule running_total_zero)
  qed
  have b: "\<forall>k\<le>9. \<not> exceeds (running_total (Fin 0) (take k (concat zero3))) 0" by (simp add: z)
  have c: "[48 \<mapsto> zero3] (48::int) = Some zero3" by simp
  have d: "sum_list (concat zero3) < (1::real)" by (simp add: zero3_def)
  have e: "\<not> exceeds (running_total (Fin 0) (concat zero3)) 0" using z[of 9] by (simp add: zero3_def)
  from generateDirection_fallthrough_undefined[of zero3 0 "[48 \<mapsto> zero3]" 48 2 2, OF a d b c] a d e
  show ?thesis by simp
qed

text \<open>
  The claim as the specification states it fails on the all-zero matrix: the result is
  \<^verbatim>\<open>undefined\<close>, which is not the direction \<open>(0, 0)\<close>.
\<close>

theorem generateDirection_zero_matrix_not_stay:
  "generateDirection 0 (Some zero3) = Inr None \<and>
   generateDirection 0 (Some zero3) \<noteq> Inr (Some (0, 0))"
  by (simp add: sampler_simps zero3_def)

text \<open>For the all-zero matrix that is so for every draw of \<open>[0, 1)\<close>.\<close>

lemma generateDirection_zero3: "0 \<le> u \<Longrightarrow> generateDirection u (Some zero3) = Inr None"
  by (simp add: sampler_simps zero3_def not_less[symmetric])

text \<open>
  A matrix of doubles that sum to one can fall through as well, by rounding: in
  \<open>ulp_matrix\<close> each of the four entries \<open>1 / 2 ^ 54\<close> is lost when it is added to the running
  total \<open>1 / 2\<close>, so that the scan ends on the total \<open>1 - 1 / 2 ^ 52\<close>, which does not exceed
  the draw \<open>1 - 1 / 2 ^ 52\<close> of \<open>[0, 1)\<close>. Here the code departs from its own documentation
  (\<^verbatim>\<open>@returns {[number, number]}\<close> for a matrix that sums to 1).
\<close>

lemma half_tie: "to_double (1 / 2 + 1 / 2 ^ 54) = Fin (1 / 2)"
proof -
  have "rnd (1 / 2 + 1 / 2 ^ 54) = 1 / 2"
    using rnd_at[of "- 1" "1 / 2 + 1 / 2 ^ 54" "2 ^ 52" "1 / 2"] by simp
  then show ?thesis using one_below_huge by (intro to_double_rnd) simp_all
qed

lemma below_one: "to_double (1 - 1 / 2 ^ 52) = Fin (1 - 1 / 2 ^ 52)"
proof -
  have "is_dbl (1 - 1 / 2 ^ 52)" by (rule is_dbl_I[of _ "2 ^ 52 - 1" "- 52"]) simp_all
  then show ?thesis using one_below_huge by (intro to_double_dbl) simp_all
qed

lemma ulp_matrix_sum: "sum_list (concat ulp_matrix) = 1"
  by (simp add: ulp_matrix_def)

lemma generateDirection_rounding_fallthrough: "generateDirection (1 - 1 / 2 ^ 52) (Some ulp_matrix) = Inr None"
proof -
  have a: "to_double (9007199254740993 / 18014398509481984) = Fin (1 / 2)"
    using half_tie by simp
  have b: "to_double (4503599627370495 / 4503599627370496) = Fin (4503599627370495 / 4503599627370496)"
    using below_one by simp
  show ?thesis
    by (simp add: sampler_simps ulp_matrix_def a b)
qed

text \<open>
  The scan of \<open>decimal_matrix\<close> with the double of 0.49 as the draw: the running totals
  are the doubles 0.02, 0.32, 0.41000000000000003 and 0.49000000000000005, and the
  fourth one exceeds the draw.
\<close>

lemma decimal_sums:
  "to_double (5764607523034235 / 2 ^ 58) = Fin (5764607523034235 / 2 ^ 58)"
  "to_double (5764607523034235 / 2 ^ 58 + 5404319552844595 / 2 ^ 54) =
     Fin (5764607523034235 / 2 ^ 54)"
  "to_double (5764607523034235 / 2 ^ 54 + 3242591731706757 / 2 ^ 55) =
     Fin (3692951694443807 / 2 ^ 53)"
  "to_double (3692951694443807 / 2 ^ 53 + 5764607523034235 / 2 ^ 56) =
     Fin (8827055269646173 / 2 ^ 54)"
proof -
  have "is_dbl (5764607523034235 / 2 ^ 58)"
    by (rule is_dbl_I[of _ 5764607523034235 "- 58"]) simp_all
  then show "to_double (5764607523034235 / 2 ^ 58) = Fin (5764607523034235 / 2 ^ 58)"
    using one_below_huge by (intro to_double_dbl) simp_all
  have "rnd (5764607523034235 / 2 ^ 58 + 5404319552844595 / 2 ^ 54) = 5764607523034235 / 2 ^ 54"
    using rnd_at[of "- 2" "5764607523034235 / 2 ^ 58 + 5404319552844595 / 2 ^ 54"
        5764607523034234 "11 / 16"] by simp
  then show "to_double (5764607523034235 / 2 ^ 58 + 5404319552844595 / 2 ^ 54) =
      Fin (5764607523034235 / 2 ^ 54)"
    using one_below_huge by (intro to_double_rnd) simp_all
  have "rnd (5764607523034235 / 2 ^ 54 + 3242591731706757 / 2 ^ 55) = 3692951694443807 / 2 ^ 53"
    using rnd_at[of "- 2" "5764607523034235 / 2 ^ 54 + 3242591731706757 / 2 ^ 55"
        7385903388887613 "1 / 2"] by simp
  then show "to_double (5764607523034235 / 2 ^ 54 + 3242591731706757 / 2 ^ 55) =
      Fin (3692951694443807 / 2 ^ 53)"
    using one_below_huge by (intro to_double_rnd) simp_all
  have "rnd (3692951694443807 / 2 ^ 53 + 5764607523034235 / 2 ^ 56) = 8827055269646173 / 2 ^ 54"
    using rnd_at[of "- 2" "3692951694443807 / 2 ^ 53 + 5764607523034235 / 2 ^ 56"
        8827055269646172 "3 / 4"] by simp
  then show "to_double (3692951694443807 / 2 ^ 53 + 5764607523034235 / 2 ^ 56) =
      Fin (8827055269646173 / 2 ^ 54)"
    using one_below_huge by (intro to_double_rnd) simp_all
qed

lemma generateDirection_decimal:
  "generateDirection (2206763817411543 / 2 ^ 52) (Some decimal_matrix) = Inr (Some (- 1, 0))"
proof -
  note s = decimal_sums[simplified]
  show ?thesis
    by (simp add: generateDirection_def elem_def upt_rec decimal_matrix_def s)
qed

section \<open>Properties of the step\<close>

lemma generateDirection_None: "generateDirection u None = Inl TypeError"
  by (simp add: generateDirection_def)

lemma right3_dir:
  "0 \<le> u \<Longrightarrow> u < 1 \<Longrightarrow> generateDirection u (Some right3) = Inr (Some (1, 0))"
  by (simp add: sampler_simps right3_def)

lemmas grid_simps = cell_def put_def swap_def grid_of_def row_of_def

subsection \<open>The loop appends one record per agent\<close>

lemma move_appends:
  "move u mp a (w, b) = Inr (w', b') \<Longrightarrow> \<exists>a'. b' = b @ [a']"
  by (cases a) (auto split: sum.splits if_splits prod.splits)

lemma agentLoop_extends:
  "agentLoop us mp as (w, b) = Inr (w', b') \<Longrightarrow> \<exists>c. b' = b @ c \<and> length c = length as"
proof (induction as arbitrary: us w b)
  case Nil
  then show ?case by simp
next
  case (Cons a as)
  from Cons.prems obtain w1 b1 where
    m: "move (us 0) mp a (w, b) = Inr (w1, b1)" and
    l: "agentLoop (\<lambda>i. us (Suc i)) mp as (w1, b1) = Inr (w', b')"
    by (auto split: sum.splits)
  from move_appends[OF m] obtain a' where "b1 = b @ [a']" by blast
  moreover from Cons.IH[OF l] obtain c where "b' = b1 @ c" "length c = length as" by blast
  ultimately show ?case by simp
qed

lemma agentLoop_append:
  "agentLoop us mp (pre @ rest) st =
     (case agentLoop us mp pre st of
        Inl e \<Rightarrow> Inl e
      | Inr st' \<Rightarrow> agentLoop (\<lambda>i. us (i + length pre)) mp rest st')"
proof (induction pre arbitrary: us st)
  case Nil
  then show ?case by simp
next
  case (Cons a pre)
  then show ?case by (simp split: sum.splits)
qed

lemma simulate_length: "length (agents (after (simulate us s))) = length (agents s)"
proof (cases "agentLoop us (mpm s) (agents s) (world s, [])")
  case (Inl e)
  then show ?thesis by (simp add: simulate_def after_def split: prod.splits)
next
  case (Inr st)
  then obtain w b where st: "st = (w, b)" by (cases st)
  from agentLoop_extends[OF Inr[unfolded st]] have "length b = length (agents s)" by auto
  with Inr st show ?thesis by (simp add: simulate_def after_def)
qed

lemma simulate_v0_2_length: "length (agents (after (simulate_v0_2 us s))) = length (agents s)"
proof (cases "agentLoop us (mpm s) (agents s) (world s, [])")
  case (Inl e)
  then show ?thesis by (simp add: simulate_v0_2_def after_def split: prod.splits)
next
  case (Inr st)
  then obtain w b where st: "st = (w, b)" by (cases st)
  from agentLoop_extends[OF Inr[unfolded st]] have "length b = length (agents s)" by auto
  with Inr st show ?thesis by (simp add: simulate_v0_2_def after_def)
qed

text \<open>
  Claim C7: mass conservation in the engines without filters. Whatever the initial
  state and the draws, after any number \<open>n\<close> of calls of \<^verbatim>\<open>simulate\<close>, or of
  \<^verbatim>\<open>simulate_v0_2\<close>, the registry has as many entries as at the start: a call that
  returns has appended one record per agent, and a call that throws has not assigned
  the registry.
\<close>

theorem registry_size_preserved:
  "length (agents (steps simulate ds n s)) = length (agents s) \<and>
   length (agents (steps simulate_v0_2 ds n s)) = length (agents s)"
proof (induction n arbitrary: ds s)
  case 0
  then show ?case by simp
next
  case (Suc n)
  then show ?case by (simp add: simulate_length simulate_v0_2_length)
qed

subsection \<open>An agent whose type has no matrix\<close>

lemma simulate_stops_at_missing_matrix:
  assumes "agents s = pre @ (x, y, ty) # post" and "mpm s ty = None"
    and "agentLoop us (mpm s) pre (world s, []) = Inr (w1, b1)"
  shows "simulate us s = Inl (TypeError, s\<lparr>world := w1\<rparr>)"
  using assms by (simp add: simulate_def agentLoop_append generateDirection_None)

text \<open>
  Claim C5, as the code has it: when an agent of the registry has a type with no entry
  in \<^verbatim>\<open>mpm\<close>, the call of \<^verbatim>\<open>simulate\<close> throws (the agent is not skipped) and leaves
  the registry and the time as they were. There is no rollback: when the agents before
  it were processed without an exception, the grid the call leaves behind is the grid
  as those agents' moves have updated it.
\<close>

theorem simulate_missing_matrix_throws:
  assumes "agents s = pre @ (x, y, ty) # post" and "mpm s ty = None"
  shows "threw (simulate us s) \<and>
         agents (after (simulate us s)) = agents s \<and>
         tm (after (simulate us s)) = tm s \<and>
         (\<forall>w1 b1. agentLoop us (mpm s) pre (world s, []) = Inr (w1, b1) \<longrightarrow>
            simulate us s = Inl (TypeError, s\<lparr>world := w1\<rparr>))"
proof (cases "agentLoop us (mpm s) pre (world s, [])")
  case (Inl e)
  then show ?thesis
    by (simp add: simulate_def assms(1) agentLoop_append threw_def after_def split: prod.splits)
next
  case (Inr st)
  then obtain w1 b1 where l: "agentLoop us (mpm s) pre (world s, []) = Inr (w1, b1)"
    by (cases st) simp
  from simulate_stops_at_missing_matrix[OF assms l] l show ?thesis
    by (simp add: threw_def after_def)
qed

theorem simulate_missing_matrix_throws_witness:
  "agents missing_mpm_config = [(1, 1, 48)] @ (3, 3, 41) # [] \<and>
   mpm missing_mpm_config 41 = None \<and>
   threw (simulate (const_draws 0) missing_mpm_config) \<and>
   agents (after (simulate (const_draws 0) missing_mpm_config)) = [(1, 1, 48), (3, 3, 41)] \<and>
   tm (after (simulate (const_draws 0) missing_mpm_config)) = 0"
proof -
  have a: "agents missing_mpm_config = [(1, 1, 48)] @ (3, 3, 41) # []"
    by (simp add: missing_mpm_config_def)
  have m: "mpm missing_mpm_config 41 = None"
    by (simp add: missing_mpm_config_def)
  from simulate_missing_matrix_throws[OF a m, of "const_draws 0"] a m show ?thesis
    by (simp add: missing_mpm_config_def)
qed

text \<open>
  The claim as the specification states it fails: in \<open>missing_mpm_config\<close> the first
  agent has moved from \<open>(1, 1)\<close> to \<open>(2, 1)\<close> in the grid when the second one makes the
  call throw, and the registry still has it at \<open>(1, 1)\<close>.
\<close>

theorem simulate_missing_matrix_not_atomic:
  "threw (simulate (const_draws 0) missing_mpm_config) \<and>
   agents (after (simulate (const_draws 0) missing_mpm_config)) = [(1, 1, 48), (3, 3, 41)] \<and>
   cell (world missing_mpm_config) 1 1 = Inr (Some 48) \<and>
   cell (world (after (simulate (const_draws 0) missing_mpm_config))) 1 1 = Inr (Some 0) \<and>
   cell (world (after (simulate (const_draws 0) missing_mpm_config))) 2 1 = Inr (Some 48)"
  by (simp add: simulate_def missing_mpm_config_def right3_dir grid_simps const_draws_def
      after_def threw_def generateDirection_None)

subsection \<open>Sequential update\<close>

text \<open>
  Claim C8: updates within one call are sequential. In \<open>follow_config\<close> both agents
  move right with probability 1 and the agent at \<open>(2, 1)\<close> comes first in the registry.
  Before the call the cell \<open>(2, 1)\<close>, which the agent at \<open>(1, 1)\<close> aims at, is occupied;
  in the one call of \<^verbatim>\<open>simulate\<close> the first agent moves to \<open>(3, 1)\<close> and the second one
  moves into \<open>(2, 1)\<close>, the cell just vacated.
\<close>

theorem later_agent_enters_vacated_cell:
  "agents follow_config = [(2, 1, 48), (1, 1, 48)] \<and>
   target 0 (mpm follow_config) (1, 1, 48) = Inr (2, 1) \<and>
   cell (world follow_config) 2 1 = Inr (Some 48) \<and>
   \<not> threw (simulate (const_draws 0) follow_config) \<and>
   agents (after (simulate (const_draws 0) follow_config)) = [(3, 1, 48), (2, 1, 48)] \<and>
   cell (world (after (simulate (const_draws 0) follow_config))) 1 1 = Inr (Some 0) \<and>
   cell (world (after (simulate (const_draws 0) follow_config))) 2 1 = Inr (Some 48) \<and>
   cell (world (after (simulate (const_draws 0) follow_config))) 3 1 = Inr (Some 48)"
  by (simp add: simulate_def follow_config_def right3_dir grid_simps const_draws_def
      after_def threw_def)

subsection \<open>The end-to-end scenario\<close>

lemma e2e_first:
  assumes "0 \<le> us 0" "us 0 < 1"
  shows "simulate us e2e = Inr (e2e_moved 1)"
  using assms by (simp add: simulate_def e2e_def e2e_moved_def right3_dir grid_simps)

lemma e2e_blocked:
  assumes "0 \<le> us 0" "us 0 < 1"
  shows "simulate us (e2e_moved n) = Inr (e2e_moved (n + 1))"
  using assms by (simp add: simulate_def e2e_def e2e_moved_def right3_dir grid_simps)

lemma e2e6_first:
  assumes "0 \<le> us 0" "us 0 < 1"
  shows "simulate us e2e6 = Inr (e2e6_moved 3 1)"
  using assms by (simp add: simulate_def e2e6_def e2e6_moved_def right3_dir grid_simps)

lemma e2e6_second:
  assumes "0 \<le> us 0" "us 0 < 1"
  shows "simulate us (e2e6_moved 3 1) = Inr (e2e6_moved 4 2)"
  using assms by (simp add: simulate_def e2e6_def e2e6_moved_def right3_dir grid_simps)

lemma e2e6_blocked:
  assumes "0 \<le> us 0" "us 0 < 1"
  shows "simulate us (e2e6_moved 4 2) = Inr (e2e6_moved 4 3)"
  using assms by (simp add: simulate_def e2e6_def e2e6_moved_def right3_dir grid_simps)

text \<open>
  Claim C2, as the code has it: on the 5 by 5 grid bordered by wall code 10 (indices 0
  to 4), with the single agent of type 48 at \<open>(2, 2)\<close> that always moves right, for all
  draws in \<open>[0, 1)\<close>: after one call the agent is at \<open>(3, 2)\<close>, the cell \<open>(2, 2)\<close> holds 0
  and the cell \<open>(3, 2)\<close> holds 48; the next cell \<open>(4, 2)\<close> is the wall, so after two calls
  and after three calls the agent is still at \<open>(3, 2)\<close>. The positions that the scenario
  lists are those of the 6 by 6 grid (indices 0 to 5): there the agent is at \<open>(3, 2)\<close>
  after one call, at \<open>(4, 2)\<close> after two, and still at \<open>(4, 2)\<close> after three, since
  \<open>(5, 2)\<close> is the wall. All calls return normally.
\<close>

theorem e2e_three_steps:
  assumes "\<forall>k i. 0 \<le> ds k i \<and> ds k i < 1"
  shows "agents (steps simulate ds 1 e2e) = [(3, 2, 48)] \<and>
         cell (world (steps simulate ds 1 e2e)) 2 2 = Inr (Some 0) \<and>
         cell (world (steps simulate ds 1 e2e)) 3 2 = Inr (Some 48) \<and>
         cell (world (steps simulate ds 1 e2e)) 4 2 = Inr (Some 10) \<and>
         agents (steps simulate ds 2 e2e) = [(3, 2, 48)] \<and>
         agents (steps simulate ds 3 e2e) = [(3, 2, 48)] \<and>
         tm (steps simulate ds 3 e2e) = 3 \<and>
         agents (steps simulate ds 1 e2e6) = [(3, 2, 48)] \<and>
         cell (world (steps simulate ds 1 e2e6)) 2 2 = Inr (Some 0) \<and>
         cell (world (steps simulate ds 1 e2e6)) 3 2 = Inr (Some 48) \<and>
         agents (steps simulate ds 2 e2e6) = [(4, 2, 48)] \<and>
         agents (steps simulate ds 3 e2e6) = [(4, 2, 48)] \<and>
         cell (world (steps simulate ds 3 e2e6)) 5 2 = Inr (Some 10) \<and>
         tm (steps simulate ds 3 e2e6) = 3"
proof -
  have d: "0 \<le> ds k 0" "ds k 0 < 1" for k using assms by auto
  have s1: "steps simulate ds 1 e2e = e2e_moved 1"
    using e2e_first[of "ds 0"] d by (simp add: after_def)
  have s2: "steps simulate ds 2 e2e = e2e_moved 2"
    using e2e_first[of "ds 0"] e2e_blocked[of "ds 1" 1] d
    by (simp add: after_def numeral_2_eq_2)
  have s3: "steps simulate ds 3 e2e = e2e_moved 3"
    using e2e_first[of "ds 0"] e2e_blocked[of "ds 1" 1] e2e_blocked[of "ds 2" 2] d
    by (simp add: after_def numeral_3_eq_3 numeral_2_eq_2)
  have t1: "steps simulate ds 1 e2e6 = e2e6_moved 3 1"
    using e2e6_first[of "ds 0"] d by (simp add: after_def)
  have t2: "steps simulate ds 2 e2e6 = e2e6_moved 4 2"
    using e2e6_first[of "ds 0"] e2e6_second[of "ds 1"] d
    by (simp add: after_def numeral_2_eq_2)
  have t3: "steps simulate ds 3 e2e6 = e2e6_moved 4 3"
    using e2e6_first[of "ds 0"] e2e6_second[of "ds 1"] e2e6_blocked[of "ds 2"] d
    by (simp add: after_def numeral_3_eq_3 numeral_2_eq_2)
  have five: "agents (e2e_moved n) = [(3, 2, 48)]" "tm (e2e_moved n) = n"
    "cell (world (e2e_moved n)) 2 2 = Inr (Some 0)"
    "cell (world (e2e_moved n)) 3 2 = Inr (Some 48)"
    "cell (world (e2e_moved n)) 4 2 = Inr (Some 10)" for n
    by (simp_all add: e2e_moved_def e2e_def grid_simps)
  have six: "agents (e2e6_moved x n) = [(x, 2, 48)]" "tm (e2e6_moved x n) = n"
    "cell (world (e2e6_moved 3 n)) 2 2 = Inr (Some 0)"
    "cell (world (e2e6_moved 3 n)) 3 2 = Inr (Some 48)"
    "cell (world (e2e6_moved 4 n)) 5 2 = Inr (Some 10)" for x n
    by (simp_all add: e2e6_moved_def e2e6_def grid_simps)
  show ?thesis unfolding s1 s2 s3 t1 t2 t3 by (simp add: five six)
qed

theorem e2e_three_steps_witness:
  "agents (steps simulate (same_draws (1 / 2)) 1 e2e) = [(3, 2, 48)] \<and>
   agents (steps simulate (same_draws (1 / 2)) 2 e2e) = [(3, 2, 48)] \<and>
   agents (steps simulate (same_draws (1 / 2)) 3 e2e) = [(3, 2, 48)] \<and>
   agents (steps simulate (same_draws (1 / 2)) 2 e2e6) = [(4, 2, 48)] \<and>
   agents (steps simulate (same_draws (1 / 2)) 3 e2e6) = [(4, 2, 48)]"
proof -
  have "\<forall>k i. 0 \<le> same_draws (1 / 2) k i \<and> same_draws (1 / 2) k i < 1"
    by (simp add: same_draws_def)
  from e2e_three_steps[OF this] show ?thesis by simp
qed

text \<open>
  The claim as the specification states it fails: after two calls the agent is at
  \<open>(3, 2)\<close>, not at \<open>(4, 2)\<close>, which is the wall; the grid has no cell \<open>(5, 2)\<close>.
\<close>

theorem e2e_second_step_blocked:
  "agents (steps simulate (same_draws 0) 2 e2e) = [(3, 2, 48)] \<and>
   agents (steps simulate (same_draws 0) 2 e2e) \<noteq> [(4, 2, 48)] \<and>
   cell (world e2e) 4 2 = Inr (Some 10) \<and>
   cell (world e2e) 5 2 = Inr None"
proof -
  have "steps simulate (same_draws 0) 2 e2e = e2e_moved 2"
    using e2e_first[of "same_draws 0 0"] e2e_blocked[of "same_draws 0 1" 1]
    by (simp add: after_def numeral_2_eq_2 same_draws_def)
  then show ?thesis by (simp add: e2e_moved_def e2e_def grid_simps)
qed

section \<open>Properties of the filters\<close>


lemma cell_put_other: "(x', y') \<noteq> (x, y) \<Longrightarrow> cell (put w x y v) x' y' = cell w x' y'"
  by (auto simp: cell_def put_def split: option.splits)

lemma bump_same: "f < length fc \<Longrightarrow> bump f fc ! f = map_option (\<lambda>c. c + 1) (fc ! f)"
  by (simp add: bump_def)

lemma bump_other: "f < length fc \<Longrightarrow> f \<noteq> g \<Longrightarrow> bump g fc ! f = fc ! f"
  by (simp add: bump_def nth_append)

lemma bump_length: "length fc \<le> length (bump g fc)"
  by (simp add: bump_def)

lemma filterLoop_keeps_counter:
  "f \<notin> set fs \<Longrightarrow> f < length fc \<Longrightarrow>
   filterLoop x2 y2 ty fp ft fs (w, b, fc) = (w', b', fc') \<Longrightarrow>
   f < length fc' \<and> fc' ! f = fc ! f"
proof (induction fs arbitrary: w b fc)
  case Nil
  then show ?case by simp
next
  case (Cons g fs)
  have l: "f < length (bump g fc)" using Cons.prems(2) bump_length[of fc g] by simp
  have o: "bump g fc ! f = fc ! f" using Cons.prems by (simp add: bump_other)
  from Cons.prems(1) have nf: "f \<notin> set fs" by simp
  show ?case
    using Cons.prems(3) Cons.IH[OF nf l] Cons.IH[OF nf Cons.prems(2)] o
    by (auto split: if_splits)
qed

lemma filterLoop_counts_once:
  "f \<in> set fs \<Longrightarrow> distinct fs \<Longrightarrow> fp ! f = x2 \<Longrightarrow> f < length fc \<Longrightarrow> fc ! f = Some c \<Longrightarrow>
   filterLoop x2 y2 ty fp ft fs (w, b, fc) = (w', b', fc') \<Longrightarrow> fc' ! f = Some (c + 1)"
proof (induction fs arbitrary: w b fc)
  case Nil
  then show ?case by simp
next
  case (Cons g fs)
  show ?case
  proof (cases "g = f")
    case True
    with Cons.prems have nf: "f \<notin> set fs" by simp
    have l: "f < length (bump f fc)" using Cons.prems(4) bump_length[of fc f] by simp
    have v: "bump f fc ! f = Some (c + 1)" using Cons.prems by (simp add: bump_same)
    from Cons.prems(6) True Cons.prems(3)
    obtain w1 b1 where "filterLoop x2 y2 ty fp ft fs (w1, b1, bump f fc) = (w', b', fc')"
      by (auto split: if_splits)
    from filterLoop_keeps_counter[OF nf l this] v show ?thesis by simp
  next
    case False
    with Cons.prems have i: "f \<in> set fs" and d: "distinct fs" by auto
    have l: "f < length (bump g fc)" using Cons.prems(4) bump_length[of fc g] by simp
    have o: "bump g fc ! f = Some c" using Cons.prems False by (simp add: bump_other)
    show ?thesis
      using Cons.prems(6) Cons.IH[OF i d Cons.prems(3) l o]
        Cons.IH[OF i d Cons.prems(3) Cons.prems(4) Cons.prems(5)]
      by (auto split: if_splits)
  qed
qed

lemma updown3_up:
  "0 \<le> u \<Longrightarrow> u < 1 / 2 \<Longrightarrow> generateDirection u (Some updown3) = Inr (Some (0, - 1))"
  by (simp add: sampler_simps updown3_def)

lemma updown3_down:
  "1 / 2 \<le> u \<Longrightarrow> u < 1 \<Longrightarrow> generateDirection u (Some updown3) = Inr (Some (0, 1))"
  by (simp add: sampler_simps updown3_def)

lemma agentLoop2_append:
  "agentLoop2 us mp fp ft (pre @ rest) st =
     (case agentLoop2 us mp fp ft pre st of
        Inl e \<Rightarrow> Inl e
      | Inr st' \<Rightarrow> agentLoop2 (\<lambda>i. us (i + length pre)) mp fp ft rest st')"
proof (induction pre arbitrary: us st)
  case Nil
  then show ?case by simp
next
  case (Cons a pre)
  then show ?case by (simp split: sum.splits)
qed

lemma simulate2_resume:
  assumes "agents s = pre @ a # post"
    and "agentLoop2 us (mpm s) (filterPost s) (filterType s) pre (world s, [], filterCount s) =
           Inr st"
    and "move2 (us (length pre)) (mpm s) (filterPost s) (filterType s) a st = Inr st'"
  shows "simulate2 us s = resume2 (\<lambda>i. us (i + Suc (length pre))) s post st'"
proof -
  obtain w b fc where st: "st = (w, b, fc)" by (cases st)
  have one: "agentLoop2 us (mpm s) (filterPost s) (filterType s) (pre @ [a])
               (world s, [], filterCount s) = Inr st'"
    using assms(2,3) by (simp add: agentLoop2_append st del: move2.simps)
  have "agentLoop2 us (mpm s) (filterPost s) (filterType s) (agents s)
               (world s, [], filterCount s) =
             agentLoop2 (\<lambda>i. us (i + Suc (length pre))) (mpm s) (filterPost s) (filterType s) post
               st'"
    using agentLoop2_append[of us "mpm s" "filterPost s" "filterType s" "pre @ [a]" post
        "(world s, [], filterCount s)"]
    by (simp add: assms(1) one)
  then show ?thesis by (simp add: simulate2_def resume2_def)
qed

lemma resume2_Nil:
  "resume2 us s [] (w, b, fc) = Inr (s\<lparr>world := w, agents := b, tm := tm s + 1, filterCount := fc\<rparr>)"
  by (simp add: resume2_def)


text \<open>
  Claim C10: the filter counters count entries into the column. Let the loop of a call
  of \<^verbatim>\<open>simulate2\<close> have processed the agents \<open>pre\<close> and come to the agent \<open>(x, y, ty)\<close>,
  with the grid \<open>w\<close> and the counters \<open>fc\<close>. Whatever the sampled direction \<open>(dx, dy)\<close>,
  if the agent moves (its destination holds 0) and the destination column \<open>x + dx\<close> is
  the position of filter \<open>f\<close>, the call goes on with the counter of \<open>f\<close> one more;
  \<open>dx = 0\<close> is not excluded, so a vertical move of an agent that already stands on the
  column counts as well. When the agent is the last one of the registry, that is the
  counter after the call.
\<close>

theorem filter_counts_every_entry:
  assumes "agents s = pre @ (x, y, ty) # post"
    and "agentLoop2 us (mpm s) (filterPost s) (filterType s) pre (world s, [], filterCount s) =
           Inr (w, b, fc)"
    and "generateDirection (us (length pre)) (mpm s ty) = Inr (Some (dx, dy))"
    and "cell w (x + dx) (y + dy) = Inr (Some 0)"
    and "cell w x y = Inr src"
    and "f < length (filterPost s)" and "filterPost s ! f = x + dx"
    and "f < length fc" and "fc ! f = Some c"
  shows "\<exists>w' b' fc'. fc' ! f = Some (c + 1) \<and>
           simulate2 us s = resume2 (\<lambda>i. us (i + Suc (length pre))) s post (w', b', fc') \<and>
           (post = [] \<longrightarrow>
              simulate2 us s =
                Inr (s\<lparr>world := w', agents := b', tm := tm s + 1, filterCount := fc'\<rparr>))"
proof -
  obtain w' b' fc' where
    r: "filterLoop (x + dx) (y + dy) ty (filterPost s) (filterType s) [0..<length (filterPost s)]
          (put (put w (x + dx) (y + dy) src) x y (Some 0), b @ [(x + dx, y + dy, ty)], fc) =
        (w', b', fc')"
    using prod_cases3 by blast
  have "f \<in> set [0..<length (filterPost s)]" using assms(6) by simp
  from filterLoop_counts_once[OF this _ _ assms(8,9) r] assms(7)
  have k: "fc' ! f = Some (c + 1)" by simp
  have m: "move2 (us (length pre)) (mpm s) (filterPost s) (filterType s) (x, y, ty) (w, b, fc) =
             Inr (w', b', fc')"
    using assms(3,4,5) r by (simp add: swap_def)
  from simulate2_resume[OF assms(1,2) m]
  have q: "simulate2 us s = resume2 (\<lambda>i. us (i + Suc (length pre))) s post (w', b', fc')" .
  then have "post = [] \<longrightarrow> simulate2 us s =
      Inr (s\<lparr>world := w', agents := b', tm := tm s + 1, filterCount := fc'\<rparr>)"
    by (simp add: resume2_Nil)
  with k q show ?thesis by blast
qed


lemma column_first:
  assumes "0 \<le> us 0" "us 0 < 1 / 2"
  shows "simulate2 us column_config = Inr column_up"
  using assms
  by (simp add: simulate2_def column_config_def column_up_def updown3_up grid_simps bump_def)

lemma column_second:
  assumes "1 / 2 \<le> us 0" "us 0 < 1"
  shows "\<exists>w'. simulate2 us column_up =
           Inr (column_up\<lparr>world := w', agents := [(2, 2, 48)], tm := 2, filterCount := [Some 2]\<rparr>)"
  using assms
  by (simp add: simulate2_def column_config_def column_up_def updown3_down grid_simps bump_def)

text \<open>
  The agent of \<open>column_config\<close> stands on the filter column 2, is not of the filter's
  type, and moves up in a first call of \<^verbatim>\<open>simulate2\<close> and down again in a second one:
  it never leaves the column, and the counter goes from 0 to 1 and then to 2.
\<close>

theorem filter_counts_every_entry_witness:
  "agents column_config = [] @ (2, 2, 48) # [] \<and>
   generateDirection (updown_draws 0 (length ([] :: agent list))) (mpm column_config 48) =
     Inr (Some (0, - 1)) \<and>
   cell (world column_config) (2 + 0) (2 + - 1) = Inr (Some 0) \<and>
   filterPost column_config ! 0 = 2 + 0 \<and>
   filterType column_config ! 0 \<noteq> 48 \<and>
   filterCount column_config ! 0 = Some 0 \<and>
   simulate2 (updown_draws 0) column_config = Inr column_up \<and>
   agents column_up = [] @ (2, 1, 48) # [] \<and>
   filterCount column_up ! 0 = Some (0 + 1) \<and>
   generateDirection (updown_draws 1 (length ([] :: agent list))) (mpm column_up 48) =
     Inr (Some (0, 1)) \<and>
   cell (world column_up) (2 + 0) (1 + 1) = Inr (Some 0) \<and>
   filterPost column_up ! 0 = 2 + 0 \<and>
   (\<exists>w' b' fc'. fc' ! 0 = Some (1 + 1) \<and>
      simulate2 (updown_draws 1) column_up =
        Inr (column_up\<lparr>world := w', agents := b', tm := tm column_up + 1, filterCount := fc'\<rparr>)) \<and>
   agents (steps simulate2 updown_draws 2 column_config) = [(2, 2, 48)] \<and>
   filterCount (steps simulate2 updown_draws 2 column_config) = [Some 2]"
proof -
  have a0: "agents column_config = [] @ (2, 2, 48) # []" by (simp add: column_config_def)
  have l0: "agentLoop2 (updown_draws 0) (mpm column_config) (filterPost column_config)
              (filterType column_config) [] (world column_config, [], filterCount column_config) =
            Inr (world column_config, [], filterCount column_config)" by simp
  have g0: "generateDirection (updown_draws 0 (length ([] :: agent list))) (mpm column_config 48) =
              Inr (Some (0, - 1))"
    by (simp add: column_config_def updown3_up updown_draws_def)
  have d0: "cell (world column_config) (2 + 0) (2 + - 1) = Inr (Some 0)"
    by (simp add: column_config_def grid_simps)
  have s0: "cell (world column_config) 2 2 = Inr (Some 48)"
    by (simp add: column_config_def grid_simps)
  have f0: "0 < length (filterPost column_config)" "filterPost column_config ! 0 = 2 + 0"
    "0 < length (filterCount column_config)" "filterCount column_config ! 0 = Some 0"
    "filterType column_config ! 0 \<noteq> 48"
    by (simp_all add: column_config_def)
  have r0: "simulate2 (updown_draws 0) column_config = Inr column_up"
    by (rule column_first) (simp_all add: updown_draws_def)
  have a1: "agents column_up = [] @ (2, 1, 48) # []" by (simp add: column_up_def)
  have l1: "agentLoop2 (updown_draws 1) (mpm column_up) (filterPost column_up)
              (filterType column_up) [] (world column_up, [], filterCount column_up) =
            Inr (world column_up, [], filterCount column_up)" by simp
  have g1: "generateDirection (updown_draws 1 (length ([] :: agent list))) (mpm column_up 48) =
              Inr (Some (0, 1))"
    by (simp add: column_up_def column_config_def updown3_down updown_draws_def)
  have d1: "cell (world column_up) (2 + 0) (1 + 1) = Inr (Some 0)"
    by (simp add: column_up_def column_config_def grid_simps)
  have s1: "cell (world column_up) 2 1 = Inr (Some 48)"
    by (simp add: column_up_def column_config_def grid_simps)
  have f1: "0 < length (filterPost column_up)" "filterPost column_up ! 0 = 2 + 0"
    "0 < length (filterCount column_up)" "filterCount column_up ! 0 = Some 1"
    by (simp_all add: column_up_def column_config_def)
  have run: "agents (steps simulate2 updown_draws 2 column_config) = [(2, 2, 48)]"
    "filterCount (steps simulate2 updown_draws 2 column_config) = [Some 2]"
    using column_second[of "updown_draws 1"]
    by (auto simp add: numeral_2_eq_2 r0 after_def updown_draws_def)
  from filter_counts_every_entry[OF a0 l0 g0 d0 s0 f0(1,2,3,4)]
    filter_counts_every_entry[OF a1 l1 g1 d1 s1 f1]
    a0 g0 d0 f0 r0 a1 g1 d1 f1 run
  show ?thesis by simp blast
qed

subsection \<open>One filter per column\<close>

lemma filterLoop_nomatch:
  "\<forall>g\<in>set fs. fp ! g \<noteq> x2 \<Longrightarrow> filterLoop x2 y2 ty fp ft fs st = st"
proof (induction fs)
  case Nil
  then show ?case by simp
next
  case (Cons g fs)
  then show ?case by (cases st) simp
qed

lemma filterLoop_append:
  "filterLoop x2 y2 ty fp ft (xs @ ys) st =
   filterLoop x2 y2 ty fp ft ys (filterLoop x2 y2 ty fp ft xs st)"
  by (induction x2 y2 ty fp ft xs st rule: filterLoop.induct) simp_all

lemma filterLoop_single:
  assumes "distinct fp" and "f < length fp" and "fp ! f = x2"
  shows "filterLoop x2 y2 ty fp ft [0..<length fp] (w, b, fc) =
         (if f < length ft \<and> ty = ft ! f
          then (put w x2 y2 (Some 0), butlast b, bump f fc)
          else (w, b, bump f fc))"
proof -
  have sp: "[0..<length fp] = [0..<f] @ f # [Suc f..<length fp]"
    using assms(2) upt_add_eq_append[of 0 f "length fp - f"] upt_conv_Cons[of f "length fp"]
    by simp
  have other: "fp ! g \<noteq> x2" if "g < length fp" "g \<noteq> f" for g
    using assms that by (auto simp: nth_eq_iff_index_eq)
  have pre: "\<forall>g\<in>set [0..<f]. fp ! g \<noteq> x2" using other assms(2) by auto
  have post: "\<forall>g\<in>set [Suc f..<length fp]. fp ! g \<noteq> x2" using other by auto
  show ?thesis
    unfolding sp filterLoop_append filterLoop_nomatch[OF pre]
    using assms(3) by (simp add: filterLoop_nomatch[OF post])
qed

lemma filterLoop_cases:
  assumes "distinct fp"
  shows "(\<exists>fc'. filterLoop x2 y2 ty fp ft [0..<length fp] (w, b, fc) = (w, b, fc')) \<or>
         (\<exists>fc'. filterLoop x2 y2 ty fp ft [0..<length fp] (w, b, fc) =
                   (put w x2 y2 (Some 0), butlast b, fc'))"
proof (cases "\<exists>f<length fp. fp ! f = x2")
  case True
  then obtain f where "f < length fp" "fp ! f = x2" by blast
  from filterLoop_single[OF assms this] show ?thesis by auto
next
  case False
  then have "\<forall>g\<in>set [0..<length fp]. fp ! g \<noteq> x2" by auto
  from filterLoop_nomatch[OF this] show ?thesis by simp
qed





text \<open>
  With the filters at distinct columns the loop body pops at most the record it has
  just pushed, so what one agent has left in \<open>b\<close> is still there when the loop ends.
\<close>

lemma move2_keeps:
  assumes "distinct fp" and "move2 u mp fp ft a (w, b, fc) = Inr (w', b', fc')"
  shows "b' = b \<or> (\<exists>a'. b' = b @ [a'])"
proof -
  obtain x y ty where a: "a = (x, y, ty)" by (cases a)
  from assms(2) a obtain x2 y2 v where
    t: "target u mp (x, y, ty) = Inr (x2, y2)" and v: "cell w x2 y2 = Inr v"
    by (auto split: sum.splits)
  show ?thesis
  proof (cases "v = Some 0")
    case True
    with assms(2) a t v obtain w1 where
      fl: "filterLoop x2 y2 ty fp ft [0..<length fp] (w1, b @ [(x2, y2, ty)], fc) = (w', b', fc')"
      by (auto split: sum.splits)
    from filterLoop_cases[OF assms(1), of x2 y2 ty ft w1 "b @ [(x2, y2, ty)]" fc] fl
    show ?thesis by auto
  next
    case False
    with assms(2) a t v show ?thesis by auto
  qed
qed

lemma agentLoop2_keeps_prefix:
  "distinct fp \<Longrightarrow> agentLoop2 us mp fp ft as (w, b, fc) = Inr (w', b', fc') \<Longrightarrow>
   \<exists>c. b' = b @ c"
proof (induction as arbitrary: us w b fc)
  case Nil
  then show ?case by simp
next
  case (Cons a as)
  from Cons.prems(2) obtain w1 b1 fc1 where
    m: "move2 (us 0) mp fp ft a (w, b, fc) = Inr (w1, b1, fc1)" and
    l: "agentLoop2 (\<lambda>i. us (Suc i)) mp fp ft as (w1, b1, fc1) = Inr (w', b', fc')"
    by (auto split: sum.splits)
  from Cons.IH[OF Cons.prems(1) l] obtain c where "b' = b1 @ c" by blast
  with move2_keeps[OF Cons.prems(1) m] show ?case by auto
qed

section \<open>A blocked agent\<close>

lemma filterLoop_frame:
  "(cx, cy) \<noteq> (x2, y2) \<Longrightarrow> filterLoop x2 y2 ty fp ft fs (w, b, fc) = (w', b', fc') \<Longrightarrow>
   cell w' cx cy = cell w cx cy"
proof (induction fs arbitrary: w b fc)
  case Nil
  then show ?case by simp
next
  case (Cons g fs)
  from Cons.prems(2) Cons.IH[OF Cons.prems(1)] cell_put_other[OF Cons.prems(1), of w "Some 0"]
  show ?case by (auto split: if_splits)
qed

lemma swap_frame:
  assumes "swap w x y x2 y2 = Inr w'" and "(cx, cy) \<noteq> (x, y)" and "(cx, cy) \<noteq> (x2, y2)"
  shows "cell w' cx cy = cell w cx cy"
  using assms by (auto simp: swap_def cell_put_other split: sum.splits)

lemma move_frame:
  assumes "move u mp a (w, b) = Inr (w', b')" and "cell w cx cy = Inr (Some v)" and "v \<noteq> 0"
    and "pos a \<noteq> (cx, cy)"
  shows "cell w' cx cy = Inr (Some v)"
proof -
  obtain x y ty where a: "a = (x, y, ty)" by (cases a)
  from assms(1) a obtain x2 y2 v2 where
    t: "target u mp (x, y, ty) = Inr (x2, y2)" and v2: "cell w x2 y2 = Inr v2"
    by (auto split: sum.splits)
  show ?thesis
  proof (cases "v2 = Some 0")
    case True
    with assms(1) a t v2 have sw: "swap w x y x2 y2 = Inr w'" by (auto split: sum.splits)
    from True v2 assms(2,3) have "(cx, cy) \<noteq> (x2, y2)" by auto
    moreover from assms(4) a have "(cx, cy) \<noteq> (x, y)" by (auto simp: pos_def)
    ultimately show ?thesis using swap_frame[OF sw] assms(2) by simp
  next
    case False
    with assms(1) a t v2 have "w' = w" by auto
    with assms(2) show ?thesis by simp
  qed
qed

lemma move2_frame:
  assumes "move2 u mp fp ft a (w, b, fc) = Inr (w', b', fc')" and "cell w cx cy = Inr (Some v)"
    and "v \<noteq> 0" and "pos a \<noteq> (cx, cy)"
  shows "cell w' cx cy = Inr (Some v)"
proof -
  obtain x y ty where a: "a = (x, y, ty)" by (cases a)
  from assms(1) a obtain x2 y2 v2 where
    t: "target u mp (x, y, ty) = Inr (x2, y2)" and v2: "cell w x2 y2 = Inr v2"
    by (auto split: sum.splits)
  show ?thesis
  proof (cases "v2 = Some 0")
    case True
    with assms(1) a t v2 obtain w1 where sw: "swap w x y x2 y2 = Inr w1" and
      fl: "filterLoop x2 y2 ty fp ft [0..<length fp] (w1, b @ [(x2, y2, ty)], fc) = (w', b', fc')"
      by (auto split: sum.splits)
    from True v2 assms(2,3) have n2: "(cx, cy) \<noteq> (x2, y2)" by auto
    moreover from assms(4) a have "(cx, cy) \<noteq> (x, y)" by (auto simp: pos_def)
    ultimately have "cell w1 cx cy = Inr (Some v)" using swap_frame[OF sw] assms(2) by simp
    with filterLoop_frame[OF n2 fl] show ?thesis by simp
  next
    case False
    with assms(1) a t v2 have "w' = w" by auto
    with assms(2) show ?thesis by simp
  qed
qed

lemma agentLoop_frame:
  "agentLoop us mp as (w, b) = Inr (w', b') \<Longrightarrow> cell w cx cy = Inr (Some v) \<Longrightarrow> v \<noteq> 0 \<Longrightarrow>
   \<forall>a\<in>set as. pos a \<noteq> (cx, cy) \<Longrightarrow> cell w' cx cy = Inr (Some v)"
proof (induction as arbitrary: us w b)
  case Nil
  then show ?case by simp
next
  case (Cons a as)
  from Cons.prems(1) obtain w1 b1 where
    m: "move (us 0) mp a (w, b) = Inr (w1, b1)" and
    l: "agentLoop (\<lambda>i. us (Suc i)) mp as (w1, b1) = Inr (w', b')"
    by (auto split: sum.splits)
  from move_frame[OF m Cons.prems(2,3)] Cons.prems(4) have "cell w1 cx cy = Inr (Some v)" by simp
  from Cons.IH[OF l this Cons.prems(3)] Cons.prems(4) show ?case by simp
qed

lemma agentLoop2_frame:
  "agentLoop2 us mp fp ft as (w, b, fc) = Inr (w', b', fc') \<Longrightarrow> cell w cx cy = Inr (Some v) \<Longrightarrow>
   v \<noteq> 0 \<Longrightarrow> \<forall>a\<in>set as. pos a \<noteq> (cx, cy) \<Longrightarrow> cell w' cx cy = Inr (Some v)"
proof (induction as arbitrary: us w b fc)
  case Nil
  then show ?case by simp
next
  case (Cons a as)
  from Cons.prems(1) obtain w1 b1 fc1 where
    m: "move2 (us 0) mp fp ft a (w, b, fc) = Inr (w1, b1, fc1)" and
    l: "agentLoop2 (\<lambda>i. us (Suc i)) mp fp ft as (w1, b1, fc1) = Inr (w', b', fc')"
    by (auto split: sum.splits)
  from move2_frame[OF m Cons.prems(2,3)] Cons.prems(4) have "cell w1 cx cy = Inr (Some v)" by simp
  from Cons.IH[OF l this Cons.prems(3)] Cons.prems(4) show ?case by simp
qed

text \<open>
  Claim C6, as the code has it: wall blocking and frame. Let the loop of a call of
  \<^verbatim>\<open>simulate\<close>, \<^verbatim>\<open>simulate_v0_2\<close> or \<^verbatim>\<open>simulate2\<close> have processed the agents \<open>pre\<close> and
  come to the agent \<open>(x, y, ty)\<close>, and let the cell that the agent has sampled hold a
  nonzero value \<open>v\<close> at that moment (a wall, a filter wall or another agent). Then
  processing the agent writes no grid cell: the loop goes on with the grid it had, in
  which the destination holds \<open>v\<close>, and with the record of the agent appended unchanged.
  When the call returns, the record is in the next registry (in \<^verbatim>\<open>simulate2\<close> provided
  the filters are at distinct columns), in \<^verbatim>\<open>simulate\<close> and \<^verbatim>\<open>simulate_v0_2\<close> at the
  index of the agent; and the destination cell still holds \<open>v\<close> provided no agent that
  the loop processes later stands on it.
\<close>

theorem blocked_agent_stays:
  assumes reg: "agents s = pre @ (x, y, ty) # post"
    and pr: "progress e us s pre = Some (w, b)"
    and t: "target (us (length pre)) (mpm s) (x, y, ty) = Inr (x2, y2)"
    and c: "cell w x2 y2 = Inr (Some v)" and v: "v \<noteq> 0"
    and r: "call e us s = Inr s'"
    and d: "e = Simulate2 \<longrightarrow> distinct (filterPost s)"
  shows "progress e us s (pre @ [(x, y, ty)]) = Some (w, b @ [(x, y, ty)]) \<and>
         (x, y, ty) \<in> set (agents s') \<and>
         (e \<noteq> Simulate2 \<longrightarrow> agents s' ! length pre = (x, y, ty)) \<and>
         ((\<forall>a\<in>set post. pos a \<noteq> (x2, y2)) \<longrightarrow> cell (world s') x2 y2 = Inr (Some v))"
proof (cases "e = Simulate2")
  case True
  from pr True obtain fc where
    l: "agentLoop2 us (mpm s) (filterPost s) (filterType s) pre (world s, [], filterCount s) =
          Inr (w, b, fc)"
    by (auto split: sum.splits)
  have m: "move2 (us (length pre)) (mpm s) (filterPost s) (filterType s) (x, y, ty) (w, b, fc) =
             Inr (w, b @ [(x, y, ty)], fc)"
    using t c v by simp
  have one: "agentLoop2 us (mpm s) (filterPost s) (filterType s) (pre @ [(x, y, ty)])
               (world s, [], filterCount s) = Inr (w, b @ [(x, y, ty)], fc)"
    by (simp add: agentLoop2_append l m del: move2.simps)
  have all: "agentLoop2 us (mpm s) (filterPost s) (filterType s) (agents s)
               (world s, [], filterCount s) =
             agentLoop2 (\<lambda>i. us (i + Suc (length pre))) (mpm s) (filterPost s) (filterType s) post
               (w, b @ [(x, y, ty)], fc)"
    using agentLoop2_append[of us "mpm s" "filterPost s" "filterType s" "pre @ [(x, y, ty)]" post
        "(world s, [], filterCount s)"]
    by (simp add: reg one)
  from r True obtain w' b' fc' where
    fin: "agentLoop2 (\<lambda>i. us (i + Suc (length pre))) (mpm s) (filterPost s) (filterType s) post
            (w, b @ [(x, y, ty)], fc) = Inr (w', b', fc')"
    and s': "world s' = w'" "agents s' = b'"
    by (auto simp: simulate2_def all split: sum.splits)
  from d True have "distinct (filterPost s)" by simp
  from agentLoop2_keeps_prefix[OF this fin] obtain k where "b' = (b @ [(x, y, ty)]) @ k" by blast
  then have mem: "(x, y, ty) \<in> set (agents s')" by (simp add: s')
  have fr: "cell (world s') x2 y2 = Inr (Some v)" if "\<forall>a\<in>set post. pos a \<noteq> (x2, y2)"
    using agentLoop2_frame[OF fin c v that] by (simp add: s')
  from one mem fr True show ?thesis by simp
next
  case False
  from pr False have
    l: "agentLoop us (mpm s) pre (world s, []) = Inr (w, b)"
    by (cases e) (auto split: sum.splits)
  from agentLoop_extends[OF l] have lb: "length b = length pre" by auto
  have m: "move (us (length pre)) (mpm s) (x, y, ty) (w, b) = Inr (w, b @ [(x, y, ty)])"
    using t c v by simp
  have one: "agentLoop us (mpm s) (pre @ [(x, y, ty)]) (world s, []) = Inr (w, b @ [(x, y, ty)])"
    by (simp add: agentLoop_append l m del: move.simps)
  have all: "agentLoop us (mpm s) (agents s) (world s, []) =
             agentLoop (\<lambda>i. us (i + Suc (length pre))) (mpm s) post (w, b @ [(x, y, ty)])"
    using agentLoop_append[of us "mpm s" "pre @ [(x, y, ty)]" post "(world s, [])"]
    by (simp add: reg one)
  from r False obtain w' b' where
    fin: "agentLoop (\<lambda>i. us (i + Suc (length pre))) (mpm s) post (w, b @ [(x, y, ty)]) =
            Inr (w', b')"
    and s': "world s' = w'" "agents s' = b'"
    by (cases e) (auto simp: simulate_def simulate_v0_2_def all split: sum.splits)
  from agentLoop_extends[OF fin] obtain k where k: "b' = (b @ [(x, y, ty)]) @ k" by blast
  then have mem: "(x, y, ty) \<in> set (agents s')" by (simp add: s')
  from k lb have ix: "agents s' ! length pre = (x, y, ty)" by (simp add: s' nth_append)
  have fr: "cell (world s') x2 y2 = Inr (Some v)" if "\<forall>a\<in>set post. pos a \<noteq> (x2, y2)"
    using agentLoop_frame[OF fin c v that] by (simp add: s')
  from one mem ix fr False show ?thesis by (cases e) simp_all
qed


text \<open>
  In \<open>e2e_moved 1\<close> the agent stands at the wall; in \<open>packed_config\<close> the second agent
  stands behind the first one, which the loop has processed before and which has not
  moved.
\<close>

theorem blocked_agent_stays_witness:
  "agents (e2e_moved 1) = [] @ (3, 2, 48) # [] \<and>
   progress Simulate (const_draws 0) (e2e_moved 1) [] = Some (world (e2e_moved 1), []) \<and>
   target (const_draws 0 (length ([] :: agent list))) (mpm (e2e_moved 1)) (3, 2, 48) = Inr (4, 2) \<and>
   cell (world (e2e_moved 1)) 4 2 = Inr (Some 10) \<and>
   call Simulate (const_draws 0) (e2e_moved 1) = Inr (e2e_moved 2) \<and>
   progress Simulate (const_draws 0) (e2e_moved 1) ([] @ [(3, 2, 48)]) =
     Some (world (e2e_moved 1), [] @ [(3, 2, 48)]) \<and>
   agents (e2e_moved 2) ! 0 = (3, 2, 48) \<and>
   cell (world (e2e_moved 2)) 4 2 = Inr (Some 10) \<and>
   agents packed_config = [(3, 1, 48)] @ (2, 1, 48) # [] \<and>
   progress Simulate2 (const_draws 0) packed_config [(3, 1, 48)] =
     Some (world packed_config, [(3, 1, 48)]) \<and>
   target (const_draws 0 (length [(3, 1, 48 :: int)])) (mpm packed_config) (2, 1, 48) = Inr (3, 1) \<and>
   cell (world packed_config) 3 1 = Inr (Some 48) \<and>
   call Simulate2 (const_draws 0) packed_config = Inr (packed_config\<lparr>tm := 1\<rparr>) \<and>
   (2, 1, 48) \<in> set (agents (packed_config\<lparr>tm := 1\<rparr>)) \<and>
   cell (world (packed_config\<lparr>tm := 1\<rparr>)) 3 1 = Inr (Some 48)"
proof -
  have a1: "agents (e2e_moved 1) = [] @ (3, 2, 48) # []" by (simp add: e2e_moved_def)
  have p1: "progress Simulate (const_draws 0) (e2e_moved 1) [] = Some (world (e2e_moved 1), [])"
    by simp
  have t1: "target (const_draws 0 (length ([] :: agent list))) (mpm (e2e_moved 1)) (3, 2, 48) =
              Inr (4, 2)"
    by (simp add: e2e_moved_def e2e_def right3_dir const_draws_def)
  have c1: "cell (world (e2e_moved 1)) 4 2 = Inr (Some 10)"
    by (simp add: e2e_moved_def e2e_def grid_simps)
  have n: "(10::int) \<noteq> 0" "(48::int) \<noteq> 0" by simp_all
  have r1: "call Simulate (const_draws 0) (e2e_moved 1) = Inr (e2e_moved 2)"
    using e2e_blocked[of "const_draws 0" 1] by (simp add: const_draws_def)
  have d1: "Simulate = Simulate2 \<longrightarrow> distinct (filterPost (e2e_moved 1))" by simp
  have a2: "agents packed_config = [(3, 1, 48)] @ (2, 1, 48) # []" by (simp add: packed_config_def)
  have p2: "progress Simulate2 (const_draws 0) packed_config [(3, 1, 48)] =
              Some (world packed_config, [(3, 1, 48)])"
    by (simp add: packed_config_def follow_config_def right3_dir const_draws_def grid_simps)
  have t2: "target (const_draws 0 (length [(3, 1, 48 :: int)])) (mpm packed_config) (2, 1, 48) =
              Inr (3, 1)"
    by (simp add: packed_config_def follow_config_def right3_dir const_draws_def)
  have c2: "cell (world packed_config) 3 1 = Inr (Some 48)"
    by (simp add: packed_config_def grid_simps)
  have r2: "call Simulate2 (const_draws 0) packed_config = Inr (packed_config\<lparr>tm := 1\<rparr>)"
    by (simp add: simulate2_def packed_config_def follow_config_def right3_dir const_draws_def
        grid_simps)
  have d2: "Simulate2 = Simulate2 \<longrightarrow> distinct (filterPost packed_config)"
    by (simp add: packed_config_def follow_config_def)
  from blocked_agent_stays[OF a1 p1 t1 c1 n(1) r1 d1] blocked_agent_stays[OF a2 p2 t2 c2 n(2) r2 d2]
    a1 p1 t1 c1 r1 a2 p2 t2 c2 r2
  show ?thesis by simp
qed

text \<open>
  The claim as the specification states it fails when the blocking agent comes later in
  the registry: in \<open>queue_config\<close> the agent at \<open>(1, 1)\<close> samples \<open>(2, 1)\<close>, which holds
  48, and stays; the agent at \<open>(2, 1)\<close> then moves to \<open>(3, 1)\<close> in the same call, and after
  the call the destination cell \<open>(2, 1)\<close> holds 0.
\<close>

theorem blocker_moves_away:
  "agents queue_config = [(1, 1, 48), (2, 1, 48)] \<and>
   target 0 (mpm queue_config) (1, 1, 48) = Inr (2, 1) \<and>
   cell (world queue_config) 2 1 = Inr (Some 48) \<and>
   \<not> threw (simulate (const_draws 0) queue_config) \<and>
   agents (after (simulate (const_draws 0) queue_config)) = [(1, 1, 48), (3, 1, 48)] \<and>
   cell (world (after (simulate (const_draws 0) queue_config))) 2 1 = Inr (Some 0) \<and>
   cell (world (after (simulate (const_draws 0) queue_config))) 2 1 \<noteq>
     cell (world queue_config) 2 1"
  by (simp add: simulate_def queue_config_def follow_config_def right3_dir grid_simps
      const_draws_def after_def threw_def)

section \<open>The synchronisation invariant\<close>

lemma cell_put:
  "cell w x y = Inr v0 \<Longrightarrow>
   cell (put w x y v) x' y' = (if (x', y') = (x, y) then Inr v else cell w x' y')"
  by (auto simp: cell_def put_def split: option.splits)

lemma well_formed_mid:
  "well_formed W wd ht w (b @ a # todo) mp = well_formed W wd ht w (a # b @ todo) mp"
  by (auto simp: well_formed_def accounted_def)

lemma relocate:
  assumes wf: "well_formed W wd ht w ((x, y, ty) # rest) mp"
    and dst: "cell w x2 y2 = Inr (Some 0)"
    and rng: "0 \<le> x2" "x2 < wd" "0 \<le> y2" "y2 < ht"
  shows "well_formed W wd ht (put (put w x2 y2 (Some ty)) x y (Some 0)) ((x2, y2, ty) # rest) mp"
proof -
  let ?w1 = "put w x2 y2 (Some ty)"
  let ?w2 = "put ?w1 x y (Some 0)"
  from wf have g: "grid_ok W wd ht w" and a: "agent_ok W wd ht w mp (x, y, ty)"
    and r: "list_all (agent_ok W wd ht w mp) rest"
    and d: "distinct (map pos ((x, y, ty) # rest))" and acc: "accounted W w ((x, y, ty) # rest)"
    by (simp_all add: well_formed_def)
  from a have src: "cell w x y = Inr (Some ty)" and ty: "ty \<noteq> 0" and xyW: "(x, y) \<notin> W"
    and m: "\<exists>m. mp ty = Some m \<and> is3x3 m"
    by (simp_all add: agent_ok_def)
  from src dst ty have ne: "(x2, y2) \<noteq> (x, y)" by auto
  have c2: "cell ?w2 x' y' =
      (if (x', y') = (x, y) then Inr (Some 0)
       else if (x', y') = (x2, y2) then Inr (Some ty) else cell w x' y')" for x' y'
  proof -
    have "cell ?w1 x y = Inr (Some ty)" using cell_put[OF dst] ne src by auto
    from cell_put[OF this] cell_put[OF dst] show ?thesis by auto
  qed
  have dW: "(x2, y2) \<notin> W" using g dst by (auto simp: grid_ok_def)
  have interior: "0 < x2 \<and> x2 < wd - 1 \<and> 0 < y2 \<and> y2 < ht - 1"
  proof -
    have "(x2, y2) \<notin> border wd ht" using g dW by (auto simp: grid_ok_def)
    with rng show ?thesis by (auto simp: border_def)
  qed
  have rest_pos: "pos q \<noteq> (x2, y2) \<and> pos q \<noteq> (x, y)" if "q \<in> set rest" for q
  proof -
    obtain qx qy qt where q: "q = (qx, qy, qt)" by (cases q)
    from r that q have "cell w qx qy = Inr (Some qt)" "qt \<noteq> 0"
      by (auto simp: list_all_iff agent_ok_def)
    with dst have "(qx, qy) \<noteq> (x2, y2)" by auto
    moreover from d that q have "(qx, qy) \<noteq> (x, y)" by (force simp: pos_def)
    ultimately show ?thesis by (simp add: q pos_def)
  qed
  have g2: "grid_ok W wd ht ?w2"
    using g xyW dW unfolding grid_ok_def c2 by auto
  have a2: "agent_ok W wd ht ?w2 mp (x2, y2, ty)"
    using interior dW ty m ne unfolding agent_ok_def c2 by auto
  have r2: "list_all (agent_ok W wd ht ?w2 mp) rest"
    unfolding list_all_iff
  proof
    fix q assume q: "q \<in> set rest"
    obtain qx qy qt where qq: "q = (qx, qy, qt)" by (cases q)
    from rest_pos[OF q] have "(qx, qy) \<noteq> (x2, y2)" "(qx, qy) \<noteq> (x, y)" by (simp_all add: qq pos_def)
    moreover from r q have "agent_ok W wd ht w mp q" by (simp add: list_all_iff)
    ultimately show "agent_ok W wd ht ?w2 mp q"
      unfolding agent_ok_def c2 qq by auto
  qed
  have d2: "distinct (map pos ((x2, y2, ty) # rest))"
    using d rest_pos by (auto simp: pos_def)
  have acc2: "accounted W ?w2 ((x2, y2, ty) # rest)"
    using acc unfolding accounted_def c2 by (auto split: if_splits)
  from g2 a2 r2 d2 acc2 show ?thesis by (simp add: well_formed_def)
qed

lemma vanish:
  assumes wf: "well_formed W wd ht w ((x, y, ty) # rest) mp"
  shows "well_formed W wd ht (put w x y (Some 0)) rest mp"
proof -
  let ?w1 = "put w x y (Some 0)"
  from wf have g: "grid_ok W wd ht w" and a: "agent_ok W wd ht w mp (x, y, ty)"
    and r: "list_all (agent_ok W wd ht w mp) rest"
    and d: "distinct (map pos ((x, y, ty) # rest))" and acc: "accounted W w ((x, y, ty) # rest)"
    by (simp_all add: well_formed_def)
  from a have src: "cell w x y = Inr (Some ty)" and xyW: "(x, y) \<notin> W"
    by (simp_all add: agent_ok_def)
  note c1 = cell_put[OF src]
  have g1: "grid_ok W wd ht ?w1"
    using g xyW unfolding grid_ok_def c1 by auto
  have r1: "list_all (agent_ok W wd ht ?w1 mp) rest"
    unfolding list_all_iff
  proof
    fix q assume q: "q \<in> set rest"
    obtain qx qy qt where qq: "q = (qx, qy, qt)" by (cases q)
    from d q qq have "(qx, qy) \<noteq> (x, y)" by (force simp: pos_def)
    moreover from r q have "agent_ok W wd ht w mp q" by (simp add: list_all_iff)
    ultimately show "agent_ok W wd ht ?w1 mp q"
      unfolding agent_ok_def c1 qq by auto
  qed
  have d1: "distinct (map pos rest)" using d by simp
  have acc1: "accounted W ?w1 rest"
    using acc unfolding accounted_def c1 by (auto split: if_splits)
  from g1 r1 d1 acc1 show ?thesis by (simp add: well_formed_def)
qed

lemma colLoop_range:
  "colLoop x mr r cs y = Inl (dx, dy) \<Longrightarrow> \<exists>c\<in>set cs. dx = int c - 1 \<and> dy = int r - 1"
proof (induction cs arbitrary: y)
  case Nil
  then show ?case by simp
next
  case (Cons c cs)
  then show ?case by (auto simp: Let_def split: if_splits)
qed

lemma rowLoop_range:
  "rowLoop x m C rs y = Some (dx, dy) \<Longrightarrow>
   \<exists>r\<in>set rs. \<exists>c<C. dx = int c - 1 \<and> dy = int r - 1"
proof (induction rs arbitrary: y)
  case Nil
  then show ?case by simp
next
  case (Cons r rs)
  show ?case
  proof (cases "colLoop x (m ! r) r [0..<C] y")
    case (Inl d)
    with Cons.prems have "colLoop x (m ! r) r [0..<C] y = Inl (dx, dy)" by simp
    from colLoop_range[OF this] show ?thesis by auto
  next
    case (Inr y')
    with Cons.prems have "rowLoop x m C rs y' = Some (dx, dy)" by simp
    from Cons.IH[OF this] show ?thesis by auto
  qed
qed

lemma target_near:
  assumes "target u mp (x, y, ty) = Inr (x2, y2)" and "mp ty = Some m" and "is3x3 m"
  shows "x - 1 \<le> x2 \<and> x2 \<le> x + 1 \<and> y - 1 \<le> y2 \<and> y2 \<le> y + 1"
proof -
  from assms(1) obtain dx dy where
    g: "generateDirection u (mp ty) = Inr (Some (dx, dy))" and x2: "x2 = x + dx" "y2 = y + dy"
    by (auto split: sum.splits option.splits)
  from is3x3_explicit[OF assms(3)] obtain m0 ms where
    m: "m = m0 # ms" and l: "length m0 = 3" "length m = 3"
    by auto
  from g assms(2) m have "rowLoop u m (length m0) [0..<length m] (Fin 0) = Some (dx, dy)"
    by (simp add: generateDirection_def)
  from rowLoop_range[OF this] l obtain r c where "r < 3" "c < 3" "dx = int c - 1" "dy = int r - 1"
    by auto
  with x2 show ?thesis by simp
qed

lemma move_preserves:
  assumes wf: "well_formed W wd ht w (b @ a # todo) mp"
    and mv: "move u mp a (w, b) = Inr (w', b')"
  shows "well_formed W wd ht w' (b' @ todo) mp"
proof -
  obtain x y ty where a: "a = (x, y, ty)" by (cases a)
  from wf have wf': "well_formed W wd ht w ((x, y, ty) # b @ todo) mp"
    by (simp add: well_formed_mid a)
  then have g: "grid_ok W wd ht w" and ok: "agent_ok W wd ht w mp (x, y, ty)"
    by (simp_all add: well_formed_def)
  from mv a obtain x2 y2 where t: "target u mp (x, y, ty) = Inr (x2, y2)"
    by (auto split: sum.splits)
  from ok obtain m where m: "mp ty = Some m" "is3x3 m" by (auto simp: agent_ok_def)
  from target_near[OF t m] ok have rng: "0 \<le> x2" "x2 < wd" "0 \<le> y2" "y2 < ht"
    by (auto simp: agent_ok_def)
  with g have "\<exists>v. cell w x2 y2 = Inr (Some v)" unfolding grid_ok_def by blast
  then obtain v where v: "cell w x2 y2 = Inr (Some v)" by blast
  from ok have src: "cell w x y = Inr (Some ty)" by (simp add: agent_ok_def)
  show ?thesis
  proof (cases "v = 0")
    case True
    with mv a t v src have "w' = put (put w x2 y2 (Some ty)) x y (Some 0)" "b' = b @ [(x2, y2, ty)]"
      by (simp_all add: swap_def)
    moreover from relocate[OF wf' _ rng] v True
    have "well_formed W wd ht (put (put w x2 y2 (Some ty)) x y (Some 0)) ((x2, y2, ty) # b @ todo) mp"
      by simp
    ultimately show ?thesis by (simp add: well_formed_mid)
  next
    case False
    with mv a t v have "w' = w" "b' = b @ [(x, y, ty)]" by simp_all
    with wf' show ?thesis by (simp add: well_formed_mid)
  qed
qed

lemma move2_preserves:
  assumes wf: "well_formed W wd ht w (b @ a # todo) mp"
    and fp: "distinct fp"
    and mv: "move2 u mp fp ft a (w, b, fc) = Inr (w', b', fc')"
  shows "well_formed W wd ht w' (b' @ todo) mp"
proof -
  obtain x y ty where a: "a = (x, y, ty)" by (cases a)
  from wf have wf': "well_formed W wd ht w ((x, y, ty) # b @ todo) mp"
    by (simp add: well_formed_mid a)
  then have g: "grid_ok W wd ht w" and ok: "agent_ok W wd ht w mp (x, y, ty)"
    by (simp_all add: well_formed_def)
  from mv a obtain x2 y2 where t: "target u mp (x, y, ty) = Inr (x2, y2)"
    by (auto split: sum.splits)
  from ok obtain m where m: "mp ty = Some m" "is3x3 m" by (auto simp: agent_ok_def)
  from target_near[OF t m] ok have rng: "0 \<le> x2" "x2 < wd" "0 \<le> y2" "y2 < ht"
    by (auto simp: agent_ok_def)
  with g have "\<exists>v. cell w x2 y2 = Inr (Some v)" unfolding grid_ok_def by blast
  then obtain v where v: "cell w x2 y2 = Inr (Some v)" by blast
  from ok have src: "cell w x y = Inr (Some ty)" by (simp add: agent_ok_def)
  show ?thesis
  proof (cases "v = 0")
    case True
    let ?w1 = "put (put w x2 y2 (Some ty)) x y (Some 0)"
    from mv a t v src True
    have fl: "filterLoop x2 y2 ty fp ft [0..<length fp] (?w1, b @ [(x2, y2, ty)], fc) = (w', b', fc')"
      by (simp add: swap_def)
    from relocate[OF wf' _ rng] v True
    have wf1: "well_formed W wd ht ?w1 ((x2, y2, ty) # b @ todo) mp" by simp
    from filterLoop_cases[OF fp, of x2 y2 ty ft ?w1 "b @ [(x2, y2, ty)]" fc] fl
    consider "w' = ?w1" "b' = b @ [(x2, y2, ty)]" | "w' = put ?w1 x2 y2 (Some 0)" "b' = b"
      by auto
    then show ?thesis
    proof cases
      case 1
      with wf1 show ?thesis by (simp add: well_formed_mid)
    next
      case 2
      with vanish[OF wf1] show ?thesis by simp
    qed
  next
    case False
    with mv a t v have "w' = w" "b' = b @ [(x, y, ty)]" by simp_all
    with wf' show ?thesis by (simp add: well_formed_mid)
  qed
qed

lemma agentLoop_preserves:
  "well_formed W wd ht w (b @ as) mp \<Longrightarrow> agentLoop us mp as (w, b) = Inr (w', b') \<Longrightarrow>
   well_formed W wd ht w' b' mp"
proof (induction as arbitrary: us w b)
  case Nil
  then show ?case by simp
next
  case (Cons a as)
  from Cons.prems(2) obtain w1 b1 where
    m: "move (us 0) mp a (w, b) = Inr (w1, b1)" and
    l: "agentLoop (\<lambda>i. us (Suc i)) mp as (w1, b1) = Inr (w', b')"
    by (auto split: sum.splits)
  from move_preserves[OF Cons.prems(1) m] have "well_formed W wd ht w1 (b1 @ as) mp" .
  from Cons.IH[OF this l] show ?case .
qed

lemma agentLoop2_preserves:
  "well_formed W wd ht w (b @ as) mp \<Longrightarrow> distinct fp \<Longrightarrow>
   agentLoop2 us mp fp ft as (w, b, fc) = Inr (w', b', fc') \<Longrightarrow>
   well_formed W wd ht w' b' mp"
proof (induction as arbitrary: us w b fc)
  case Nil
  then show ?case by simp
next
  case (Cons a as)
  from Cons.prems(3) obtain w1 b1 fc1 where
    m: "move2 (us 0) mp fp ft a (w, b, fc) = Inr (w1, b1, fc1)" and
    l: "agentLoop2 (\<lambda>i. us (Suc i)) mp fp ft as (w1, b1, fc1) = Inr (w', b', fc')"
    by (auto split: sum.splits)
  from move2_preserves[OF Cons.prems(1,2) m] have "well_formed W wd ht w1 (b1 @ as) mp" .
  from Cons.IH[OF this Cons.prems(2) l] show ?case .
qed

lemma call_preserves:
  assumes "well_formed_state W wd ht s" and "call e us s = Inr s'"
  shows "well_formed_state W wd ht s'"
proof (cases e)
  case Simulate
  with assms(2) obtain w b where
    l: "agentLoop us (mpm s) (agents s) (world s, []) = Inr (w, b)"
    and s': "s' = s\<lparr>world := w, agents := b, tm := tm s + 1\<rparr>"
    by (auto simp: simulate_def split: sum.splits prod.splits)
  from assms(1) have "well_formed W wd ht (world s) ([] @ agents s) (mpm s)"
    by (simp add: well_formed_state_def)
  from agentLoop_preserves[OF this l] assms(1) s' show ?thesis
    by (simp add: well_formed_state_def)
next
  case Simulate2
  with assms(2) obtain w b fc where
    l: "agentLoop2 us (mpm s) (filterPost s) (filterType s) (agents s)
          (world s, [], filterCount s) = Inr (w, b, fc)"
    and s': "s' = s\<lparr>world := w, agents := b, tm := tm s + 1, filterCount := fc\<rparr>"
    by (auto simp: simulate2_def split: sum.splits prod.splits)
  from assms(1) have "well_formed W wd ht (world s) ([] @ agents s) (mpm s)"
    and "distinct (filterPost s)"
    by (simp_all add: well_formed_state_def)
  from agentLoop2_preserves[OF this l] assms(1) s' show ?thesis
    by (simp add: well_formed_state_def)
next
  case Simulate_v0_2
  with assms(2) obtain w b where
    l: "agentLoop us (mpm s) (agents s) (world s, []) = Inr (w, b)"
    and s': "world s' = w" "agents s' = b" "mpm s' = mpm s" "filterPost s' = filterPost s"
    by (auto simp: simulate_v0_2_def split: sum.splits prod.splits)
  from assms(1) have "well_formed W wd ht (world s) ([] @ agents s) (mpm s)"
    by (simp add: well_formed_state_def)
  from agentLoop_preserves[OF this l] assms(1) s' show ?thesis
    by (simp add: well_formed_state_def)
qed

lemma calls_preserve:
  "well_formed_state W wd ht s \<Longrightarrow> calls cs s = Inr s' \<Longrightarrow> well_formed_state W wd ht s'"
proof (induction cs arbitrary: s)
  case Nil
  then show ?case by simp
next
  case (Cons c cs)
  obtain e us where c: "c = (e, us)" by (cases c)
  from Cons.prems(2) c obtain s1 where
    s1: "call e us s = Inr s1" and r: "calls cs s1 = Inr s'"
    by (auto split: sum.splits)
  from call_preserves[OF Cons.prems(1) s1] have "well_formed_state W wd ht s1" .
  from Cons.IH[OF this r] show ?case .
qed

lemma well_formed_synced:
  assumes "well_formed W wd ht w as mp"
  shows "synced W w as"
proof -
  from assms have ok: "list_all (agent_ok W wd ht w mp) as" and d: "distinct (map pos as)"
    and acc: "accounted W w as"
    by (simp_all add: well_formed_def)
  have one: "\<forall>(x, y, ty) \<in> set as. cell w x y = Inr (Some ty)"
    using ok by (auto simp: list_all_iff agent_ok_def)
  have two: "\<exists>i<length as. as ! i = (x, y, v) \<and> (\<forall>j<length as. pos (as ! j) = (x, y) \<longrightarrow> j = i)"
    if c: "cell w x y = Inr (Some v)" "v \<noteq> 0" "(x, y) \<notin> W" for x y v
  proof -
    from acc c have "(x, y, v) \<in> set as" by (auto simp: accounted_def)
    then obtain i where i: "i < length as" "as ! i = (x, y, v)" by (auto simp: in_set_conv_nth)
    have "j = i" if j: "j < length as" "pos (as ! j) = (x, y)" for j
    proof -
      from i j have "map pos as ! j = map pos as ! i" by (simp add: pos_def)
      moreover from i j have "j < length (map pos as)" "i < length (map pos as)" by simp_all
      ultimately show ?thesis using d nth_eq_iff_index_eq by blast
    qed
    with i show ?thesis by blast
  qed
  from one two show ?thesis unfolding synced_def by blast
qed

subsection \<open>Calls that return\<close>

lemma below10:
  "k \<le> 9 \<Longrightarrow> k = 0 \<or> k = 1 \<or> k = 2 \<or> k = 3 \<or> k = 4 \<or> k = 5 \<or> k = 6 \<or> k = 7 \<or> k = 8 \<or> k = (9::nat)"
  by arith

lemma generateDirection_covered:
  assumes "is3x3 m" and "0 \<le> u" and "k \<le> 9" and "exceeds (running_total (Fin 0) (take k (concat m))) u"
  shows "\<exists>d. generateDirection u (Some m) = Inr (Some d)"
proof -
  from is3x3_explicit[OF assms(1)] obtain a b c d e f g h i where
    m: "m = [[a, b, c], [d, e, f], [g, h, i]]" by blast
  from below10[OF assms(3)] assms(2,4) show ?thesis
    unfolding m scan_unfold by (elim disjE; simp add: Let_def)
qed

lemma draws_ok_shift: "draws_ok mp us \<Longrightarrow> draws_ok mp (\<lambda>i. us (Suc i))"
  by (simp add: draws_ok_def)

lemma target_returns:
  assumes "agent_ok W wd ht w mp (x, y, ty)" and "draws_ok mp us"
  shows "\<exists>x2 y2. target (us i) mp (x, y, ty) = Inr (x2, y2)"
proof -
  from assms(1) obtain m where m: "mp ty = Some m" "is3x3 m" by (auto simp: agent_ok_def)
  from assms(2) m(1) obtain k where "0 \<le> us i" "k \<le> 9"
    "exceeds (running_total (Fin 0) (take k (concat m))) (us i)"
    unfolding draws_ok_def by blast
  from generateDirection_covered[OF m(2) this] obtain d where
    "generateDirection (us i) (Some m) = Inr (Some d)" by blast
  with m(1) show ?thesis by (cases d) simp
qed

lemma destination_read:
  assumes wf: "well_formed W wd ht w ((x, y, ty) # rest) mp"
    and t: "target u mp (x, y, ty) = Inr (x2, y2)"
  shows "\<exists>v. cell w x2 y2 = Inr (Some v)"
proof -
  from wf have g: "grid_ok W wd ht w" and ok: "agent_ok W wd ht w mp (x, y, ty)"
    by (simp_all add: well_formed_def)
  from ok obtain m where m: "mp ty = Some m" "is3x3 m" by (auto simp: agent_ok_def)
  from target_near[OF t m] ok have "0 \<le> x2" "x2 < wd" "0 \<le> y2" "y2 < ht"
    by (auto simp: agent_ok_def)
  with g show ?thesis unfolding grid_ok_def by blast
qed

lemma move_returns:
  assumes wf: "well_formed W wd ht w (b @ a # todo) mp" and dr: "draws_ok mp us"
  shows "\<exists>w' b'. move (us i) mp a (w, b) = Inr (w', b')"
proof -
  obtain x y ty where a: "a = (x, y, ty)" by (cases a)
  from wf have wf': "well_formed W wd ht w ((x, y, ty) # b @ todo) mp"
    by (simp add: well_formed_mid a)
  then have ok: "agent_ok W wd ht w mp (x, y, ty)" by (simp add: well_formed_def)
  from target_returns[OF ok dr] obtain x2 y2 where
    t: "target (us i) mp (x, y, ty) = Inr (x2, y2)" by blast
  from destination_read[OF wf' t] obtain v where v: "cell w x2 y2 = Inr (Some v)" by blast
  from ok have "cell w x y = Inr (Some ty)" by (simp add: agent_ok_def)
  with t v show ?thesis by (simp add: a swap_def)
qed

lemma move2_returns:
  assumes wf: "well_formed W wd ht w (b @ a # todo) mp" and dr: "draws_ok mp us"
  shows "\<exists>w' b' fc'. move2 (us i) mp fp ft a (w, b, fc) = Inr (w', b', fc')"
proof -
  obtain x y ty where a: "a = (x, y, ty)" by (cases a)
  from wf have wf': "well_formed W wd ht w ((x, y, ty) # b @ todo) mp"
    by (simp add: well_formed_mid a)
  then have ok: "agent_ok W wd ht w mp (x, y, ty)" by (simp add: well_formed_def)
  from target_returns[OF ok dr] obtain x2 y2 where
    t: "target (us i) mp (x, y, ty) = Inr (x2, y2)" by blast
  from destination_read[OF wf' t] obtain v where v: "cell w x2 y2 = Inr (Some v)" by blast
  from ok have src: "cell w x y = Inr (Some ty)" by (simp add: agent_ok_def)
  show ?thesis
  proof (cases "v = 0")
    case True
    obtain w' b' fc' where
      "filterLoop x2 y2 ty fp ft [0..<length fp]
         (put (put w x2 y2 (Some ty)) x y (Some 0), b @ [(x2, y2, ty)], fc) = (w', b', fc')"
      using prod_cases3 by blast
    with t v src True show ?thesis by (simp add: a swap_def)
  next
    case False
    with t v show ?thesis by (simp add: a)
  qed
qed

lemma agentLoop_returns:
  "well_formed W wd ht w (b @ as) mp \<Longrightarrow> draws_ok mp us \<Longrightarrow>
   \<exists>w' b'. agentLoop us mp as (w, b) = Inr (w', b')"
proof (induction as arbitrary: us w b)
  case Nil
  then show ?case by simp
next
  case (Cons a as)
  from move_returns[OF Cons.prems, of 0] obtain w1 b1 where
    m: "move (us 0) mp a (w, b) = Inr (w1, b1)" by blast
  from move_preserves[OF Cons.prems(1) m] have "well_formed W wd ht w1 (b1 @ as) mp" .
  from Cons.IH[OF this draws_ok_shift[OF Cons.prems(2)]] m show ?case by simp
qed

lemma agentLoop2_returns:
  "well_formed W wd ht w (b @ as) mp \<Longrightarrow> distinct fp \<Longrightarrow> draws_ok mp us \<Longrightarrow>
   \<exists>w' b' fc'. agentLoop2 us mp fp ft as (w, b, fc) = Inr (w', b', fc')"
proof (induction as arbitrary: us w b fc)
  case Nil
  then show ?case by simp
next
  case (Cons a as)
  from move2_returns[OF Cons.prems(1,3), of 0] obtain w1 b1 fc1 where
    m: "move2 (us 0) mp fp ft a (w, b, fc) = Inr (w1, b1, fc1)" by blast
  from move2_preserves[OF Cons.prems(1,2) m] have "well_formed W wd ht w1 (b1 @ as) mp" .
  from Cons.IH[OF this Cons.prems(2) draws_ok_shift[OF Cons.prems(3)]] m show ?case by simp
qed

lemma call_returns:
  assumes "well_formed_state W wd ht s" and "draws_ok (mpm s) us"
  shows "\<exists>s'. call e us s = Inr s'"
proof -
  from assms(1) have wf: "well_formed W wd ht (world s) ([] @ agents s) (mpm s)"
    and fp: "distinct (filterPost s)"
    by (simp_all add: well_formed_state_def)
  show ?thesis
  proof (cases e)
    case Simulate
    from agentLoop_returns[OF wf assms(2)] show ?thesis
      by (auto simp: Simulate simulate_def)
  next
    case Simulate2
    from agentLoop2_returns[OF wf fp assms(2)] obtain w' b' fc' where
      "agentLoop2 us (mpm s) (filterPost s) (filterType s) (agents s)
         (world s, [], filterCount s) = Inr (w', b', fc')" by blast
    then show ?thesis by (simp add: Simulate2 simulate2_def)
  next
    case Simulate_v0_2
    from agentLoop_returns[OF wf assms(2)] show ?thesis
      by (auto simp: Simulate_v0_2 simulate_v0_2_def)
  qed
qed

lemma call_mpm: "call e us s = Inr s' \<Longrightarrow> mpm s' = mpm s"
  by (cases e)
    (auto simp: simulate_def simulate2_def simulate_v0_2_def split: sum.splits prod.splits)

lemma calls_return:
  "well_formed_state W wd ht s \<Longrightarrow> covered (mpm s) cs \<Longrightarrow> \<exists>s'. calls cs s = Inr s'"
proof (induction cs arbitrary: s)
  case Nil
  then show ?case by simp
next
  case (Cons c cs)
  obtain e us where c: "c = (e, us)" by (cases c)
  from Cons.prems(2) c have dr: "draws_ok (mpm s) us" and rest: "covered (mpm s) cs"
    by (simp_all add: covered_def)
  from call_returns[OF Cons.prems(1) dr] obtain s1 where s1: "call e us s = Inr s1" by blast
  from call_preserves[OF Cons.prems(1) s1] have wf1: "well_formed_state W wd ht s1" .
  from rest call_mpm[OF s1] have "covered (mpm s1) cs" by simp
  from Cons.IH[OF wf1 this] s1 c show ?case by simp
qed

subsection \<open>Concrete worlds\<close>

lemma cell_grid_of:
  "cell (grid_of rs) x y =
     (if 0 \<le> y \<and> y < int (length rs)
      then Inr (if 0 \<le> x \<and> x < int (length (rs ! nat y)) then Some (rs ! nat y ! nat x) else None)
      else Inl TypeError)"
  by (simp add: cell_def grid_of_def row_of_def)

lemma is3x3_right3: "is3x3 right3" by (simp add: is3x3_def right3_def)
lemma is3x3_zero3: "is3x3 zero3" by (simp add: is3x3_def zero3_def)

text \<open>
  A world of 5 by 5 cells given by its rows is well-formed, with the border as its walls,
  when the checks below hold; each is a statement about one cell.
\<close>

lemma well_formed_5x5:
  assumes w: "w = grid_of rs" and l: "length rs = 5" "\<forall>r\<in>set rs. length r = 5"
    and bd: "\<And>x y. x < 5 \<Longrightarrow> y < 5 \<Longrightarrow> x = 0 \<or> x = 4 \<or> y = 0 \<or> y = 4 \<Longrightarrow> rs ! y ! x \<noteq> 0"
    and ag: "list_all (agent_ok (border 5 5) 5 5 w mp) as"
    and ds: "distinct (map pos as)"
    and inn: "\<And>x y. 0 < x \<Longrightarrow> x < 4 \<Longrightarrow> 0 < y \<Longrightarrow> y < 4 \<Longrightarrow> rs ! y ! x \<noteq> 0 \<Longrightarrow>
               (int x, int y, rs ! y ! x) \<in> set as"
  shows "well_formed (border 5 5) 5 5 w as mp"
proof -
  have c: "cell w x y = Inr (Some (rs ! nat y ! nat x))" if "0 \<le> x" "x < 5" "0 \<le> y" "y < 5" for x y
  proof -
    from that l have "nat y < length rs" by simp
    with l have "length (rs ! nat y) = 5" by simp
    with that l show ?thesis by (simp add: w cell_grid_of)
  qed
  have inside: "0 \<le> x \<and> x < 5 \<and> 0 \<le> y \<and> y < 5" if "cell w x y = Inr (Some v)" for x y v
  proof -
    from that l have y: "0 \<le> y" "y < 5" by (auto simp: w cell_grid_of split: if_splits)
    with l have "nat y < length rs" by simp
    with l have "length (rs ! nat y) = 5" by simp
    with that y l show ?thesis by (auto simp: w cell_grid_of split: if_splits)
  qed
  have g: "grid_ok (border 5 5) 5 5 w"
    unfolding grid_ok_def
  proof (intro conjI allI impI ballI)
    fix x y :: int assume "0 \<le> x \<and> x < 5 \<and> 0 \<le> y \<and> y < 5"
    with c show "\<exists>v. cell w x y = Inr (Some v)" by blast
  next
    show "border 5 5 \<subseteq> border 5 5" by simp
  next
    fix p assume p: "p \<in> border 5 5"
    obtain x y where xy: "p = (x, y)" by (cases p)
    from p xy have r: "0 \<le> x" "x < 5" "0 \<le> y" "y < 5" and e: "x = 0 \<or> x = 4 \<or> y = 0 \<or> y = 4"
      by (auto simp: border_def)
    from r e have "rs ! nat y ! nat x \<noteq> 0" by (intro bd) auto
    with c[OF r] xy show "case p of (x, y) \<Rightarrow> \<exists>v. cell w x y = Inr (Some v) \<and> v \<noteq> 0" by simp
  qed
  have acc: "accounted (border 5 5) w as"
    unfolding accounted_def
  proof (intro allI impI)
    fix x y v
    assume h: "cell w x y = Inr (Some v) \<and> v \<noteq> 0 \<and> (x, y) \<notin> border 5 5"
    with inside have r: "0 \<le> x" "x < 5" "0 \<le> y" "y < 5" by auto
    with h have i: "0 < x" "x < 4" "0 < y" "y < 4" by (auto simp: border_def)
    from c[OF r] h have v: "v = rs ! nat y ! nat x" by simp
    with h i have "(int (nat x), int (nat y), rs ! nat y ! nat x) \<in> set as"
      by (intro inn) auto
    with v r show "(x, y, v) \<in> set as" by simp
  qed
  from g ag ds acc show ?thesis by (simp add: well_formed_def)
qed

lemma nat_below5: "(x::nat) < 5 \<Longrightarrow> x = 0 \<or> x = 1 \<or> x = 2 \<or> x = 3 \<or> x = 4"
  by arith

lemma nat_inner5: "0 < (x::nat) \<Longrightarrow> x < 4 \<Longrightarrow> x = 1 \<or> x = 2 \<or> x = 3"
  by arith

lemma e2e_well_formed: "well_formed_state (border 5 5) 5 5 e2e"
proof -
  let ?rs = "[[10, 10, 10, 10, 10], [10, 0, 0, 0, 10], [10, 0, 48, 0, 10], [10, 0, 0, 0, 10],
              [10, 10, 10, 10, 10 :: int]]"
  have w: "world e2e = grid_of ?rs" by (simp add: e2e_def)
  have bd: "?rs ! y ! x \<noteq> 0" if "x < 5" "y < 5" "x = 0 \<or> x = 4 \<or> y = 0 \<or> y = 4" for x y
    using nat_below5[OF that(1)] nat_below5[OF that(2)] that(3) by (elim disjE; simp)
  have ag: "list_all (agent_ok (border 5 5) 5 5 (world e2e) (mpm e2e)) (agents e2e)"
    by (simp add: e2e_def agent_ok_def border_def cell_grid_of is3x3_right3)
  have ds: "distinct (map pos (agents e2e))" by (simp add: e2e_def)
  have inn: "(int x, int y, ?rs ! y ! x) \<in> set (agents e2e)"
    if "0 < x" "x < 4" "0 < y" "y < 4" "?rs ! y ! x \<noteq> 0" for x y
    using nat_inner5[OF that(1,2)] nat_inner5[OF that(3,4)] that(5)
    by (elim disjE; simp add: e2e_def)
  from well_formed_5x5[OF w _ _ bd ag ds inn] show ?thesis
    by (simp add: well_formed_state_def e2e_def)
qed


lemma stuck_well_formed: "well_formed_state (border 5 5) 5 5 stuck_config"
proof -
  let ?rs = "[[10, 10, 10, 10, 10], [10, 48, 0, 0, 10], [10, 0, 0, 0, 10], [10, 0, 0, 41, 10],
              [10, 10, 10, 10, 10 :: int]]"
  have w: "world stuck_config = grid_of ?rs" by (simp add: stuck_config_def)
  have bd: "?rs ! y ! x \<noteq> 0" if "x < 5" "y < 5" "x = 0 \<or> x = 4 \<or> y = 0 \<or> y = 4" for x y
    using nat_below5[OF that(1)] nat_below5[OF that(2)] that(3) by (elim disjE; simp)
  have ag: "list_all (agent_ok (border 5 5) 5 5 (world stuck_config) (mpm stuck_config))
              (agents stuck_config)"
    by (simp add: stuck_config_def agent_ok_def border_def cell_grid_of is3x3_right3 is3x3_zero3)
  have ds: "distinct (map pos (agents stuck_config))" by (simp add: stuck_config_def pos_def)
  have inn: "(int x, int y, ?rs ! y ! x) \<in> set (agents stuck_config)"
    if "0 < x" "x < 4" "0 < y" "y < 4" "?rs ! y ! x \<noteq> 0" for x y
    using nat_inner5[OF that(1,2)] nat_inner5[OF that(3,4)] that(5)
    by (elim disjE; simp add: stuck_config_def)
  from well_formed_5x5[OF w _ _ bd ag ds inn] show ?thesis
    by (simp add: well_formed_state_def stuck_config_def)
qed

subsection \<open>The invariant\<close>

text \<open>
  Claim C1, as the code has it: grid and registry stay synchronised along every sequence
  of calls of \<^verbatim>\<open>simulate\<close>, \<^verbatim>\<open>simulate2\<close> and \<^verbatim>\<open>simulate_v0_2\<close> that all return
  normally. From a well-formed initial state (the border walled, wall cells nonzero,
  every agent of a nonzero type that has a 3 by 3 matrix, agents on distinct interior
  cells that hold their types, every other nonzero cell a wall or filter cell, the
  filters at distinct columns), in every state so reached every registry agent
  \<open>(x, y, ty)\<close> has \<open>world[y][x] = ty\<close>, and every nonzero cell that is no wall or filter
  cell has exactly one registry agent at its position, of that type. And all the calls
  do return normally, in such a state, when every draw is non-negative and the running
  total of the scan of every matrix of the table, as the code accumulates it, exceeds
  the draw at some cell.
\<close>

theorem sync_invariant:
  assumes "well_formed_state W wd ht s0"
  shows "(\<forall>s. calls cs s0 = Inr s \<longrightarrow> synced W (world s) (agents s)) \<and>
         (covered (mpm s0) cs \<longrightarrow> (\<exists>s. calls cs s0 = Inr s \<and> synced W (world s) (agents s)))"
proof -
  have a: "synced W (world s) (agents s)" if "calls cs s0 = Inr s" for s
  proof -
    from calls_preserve[OF assms that]
    have "well_formed W wd ht (world s) (agents s) (mpm s)"
      by (simp add: well_formed_state_def)
    then show ?thesis by (rule well_formed_synced)
  qed
  moreover have "\<exists>s. calls cs s0 = Inr s \<and> synced W (world s) (agents s)"
    if "covered (mpm s0) cs"
  proof -
    from calls_return[OF assms that] obtain s where "calls cs s0 = Inr s" by blast
    with a show ?thesis by blast
  qed
  ultimately show ?thesis by blast
qed

lemma crossing_well_formed: "well_formed_state (border 5 5) 5 5 (crossing_config 47)"
proof -
  let ?rs = "[[10, 10, 10, 10, 10], [10, 0, 0, 0, 10], [10, 47, 0, 0, 10], [10, 0, 0, 0, 10],
              [10, 10, 10, 10, 10 :: int]]"
  have w: "world (crossing_config 47) = grid_of ?rs" by (simp add: crossing_config_def)
  have bd: "?rs ! y ! x \<noteq> 0" if "x < 5" "y < 5" "x = 0 \<or> x = 4 \<or> y = 0 \<or> y = 4" for x y
    using nat_below5[OF that(1)] nat_below5[OF that(2)] that(3) by (elim disjE; simp)
  have ag: "list_all (agent_ok (border 5 5) 5 5 (world (crossing_config 47))
              (mpm (crossing_config 47))) (agents (crossing_config 47))"
    by (simp add: crossing_config_def agent_ok_def border_def cell_grid_of is3x3_right3)
  have ds: "distinct (map pos (agents (crossing_config 47)))"
    by (simp add: crossing_config_def)
  have inn: "(int x, int y, ?rs ! y ! x) \<in> set (agents (crossing_config 47))"
    if "0 < x" "x < 4" "0 < y" "y < 4" "?rs ! y ! x \<noteq> 0" for x y
    using nat_inner5[OF that(1,2)] nat_inner5[OF that(3,4)] that(5)
    by (elim disjE; simp add: crossing_config_def)
  from well_formed_5x5[OF w _ _ bd ag ds inn] show ?thesis
    by (simp add: well_formed_state_def crossing_config_def)
qed

text \<open>
  The end-to-end scenario is well-formed; a call of \<^verbatim>\<open>simulate\<close> and one of
  \<^verbatim>\<open>simulate2\<close> take it to \<open>e2e_moved 2\<close>. So is \<open>crossing_config 47\<close>, where a call
  of \<^verbatim>\<open>simulate2\<close> removes the agent at the filter.
\<close>

theorem sync_invariant_witness:
  "well_formed_state (border 5 5) 5 5 e2e \<and>
   covered (mpm e2e) [(Simulate, const_draws 0), (Simulate2, const_draws 0)] \<and>
   calls [(Simulate, const_draws 0), (Simulate2, const_draws 0)] e2e = Inr (e2e_moved 2) \<and>
   synced (border 5 5) (world (e2e_moved 2)) (agents (e2e_moved 2)) \<and>
   well_formed_state (border 5 5) 5 5 (crossing_config 47) \<and>
   calls [(Simulate2, const_draws 0)] (crossing_config 47) =
     Inr (after (simulate2 (const_draws 0) (crossing_config 47))) \<and>
   agents (after (simulate2 (const_draws 0) (crossing_config 47))) = [] \<and>
   synced (border 5 5) (world (after (simulate2 (const_draws 0) (crossing_config 47))))
     (agents (after (simulate2 (const_draws 0) (crossing_config 47))))"
proof -
  let ?cs = "[(Simulate, const_draws 0), (Simulate2, const_draws 0)]"
  have c: "calls ?cs e2e = Inr (e2e_moved 2)"
    using e2e_first[of "const_draws 0"]
    by (simp add: const_draws_def simulate2_def e2e_moved_def e2e_def right3_dir grid_simps)
  have "exceeds (running_total (Fin 0) (take 6 (concat right3))) 0"
    by (simp add: right3_def to_double_0 to_double_1)
  then have "\<exists>k\<le>9. exceeds (running_total (Fin 0) (take k (concat right3))) 0"
    by (intro exI[of _ 6]) simp
  then have v: "covered (mpm e2e) ?cs"
    by (simp add: covered_def draws_ok_def const_draws_def e2e_def)
  have nt: "\<not> threw (simulate2 (const_draws 0) (crossing_config 47))"
    and a: "agents (after (simulate2 (const_draws 0) (crossing_config 47))) = []"
    by (simp_all add: simulate2_def crossing_config_def const_draws_def right3_dir grid_simps
        threw_def after_def)
  have d: "calls [(Simulate2, const_draws 0)] (crossing_config 47) =
             Inr (after (simulate2 (const_draws 0) (crossing_config 47)))"
    using nt by (cases "simulate2 (const_draws 0) (crossing_config 47)")
      (simp_all add: threw_def after_def)
  from sync_invariant[OF e2e_well_formed, of ?cs]
    sync_invariant[OF crossing_well_formed, of "[(Simulate2, const_draws 0)]"]
    e2e_well_formed crossing_well_formed c d a v
  show ?thesis by simp
qed

text \<open>
  The claim as the specification states it, for any call, fails: \<open>stuck_config\<close> is
  well-formed, and its call of \<^verbatim>\<open>simulate\<close> throws when the second agent draws no
  direction from its all-zero matrix. By then the first agent has moved in the grid,
  and the registry still has it at \<open>(1, 1)\<close>, where the grid holds 0.
\<close>

theorem throwing_call_breaks_sync:
  "well_formed_state (border 5 5) 5 5 stuck_config \<and>
   threw (simulate (const_draws 0) stuck_config) \<and>
   agents (after (simulate (const_draws 0) stuck_config)) = [(1, 1, 48), (3, 3, 41)] \<and>
   cell (world (after (simulate (const_draws 0) stuck_config))) 1 1 = Inr (Some 0) \<and>
   \<not> synced (border 5 5) (world (after (simulate (const_draws 0) stuck_config)))
        (agents (after (simulate (const_draws 0) stuck_config)))"
proof -
  have z: "generateDirection 0 (Some zero3) = Inr None"
    by (simp add: sampler_simps zero3_def)
  have t: "threw (simulate (const_draws 0) stuck_config)"
    and a: "agents (after (simulate (const_draws 0) stuck_config)) = [(1, 1, 48), (3, 3, 41)]"
    and c: "cell (world (after (simulate (const_draws 0) stuck_config))) 1 1 = Inr (Some 0)"
    by (simp_all add: simulate_def stuck_config_def right3_dir z grid_simps const_draws_def
        after_def threw_def)
  from a c have "\<not> synced (border 5 5) (world (after (simulate (const_draws 0) stuck_config)))
        (agents (after (simulate (const_draws 0) stuck_config)))"
    by (simp add: synced_def)
  with stuck_well_formed t a c show ?thesis by simp
qed

end
